theory Spec2Isabelle
  imports Complex_Main "HOL-Library.AList"
begin

unbundle bit_operations_syntax

section \<open>Identifier generator\<close>

text \<open>
  \<^verbatim>\<open>generateRequestId\<close> (WebSocketContext.tsx, lines 41-47) rewrites the template
  \<^verbatim>\<open>xxxxxxxx-xxxx-4xxx-yxxx-xxxxxxxxxxxx\<close> with \<^verbatim>\<open>String.replace(/[xy]/g, cb)\<close>. The callback
  draws \<^verbatim>\<open>Math.random()\<close> once for every replaced character. The random source is the
  sequence \<open>rand\<close> of the numbers that \<^verbatim>\<open>Math.random()\<close> returns, read from position \<open>i\<close>
  on; its contract is \<open>0 \<le> rand k < 1\<close>. Multiplying a double by 16 is exact, so the real
  product is the double product.
\<close>

text \<open>\<^verbatim>\<open>x | 0\<close>: ToInt32, truncation towards zero followed by the signed 32-bit wrap.\<close>

definition to_int32 :: "real \<Rightarrow> int" where
  "to_int32 x =
     (let t = (if x < 0 then \<lceil>x\<rceil> else \<lfloor>x\<rfloor>); m = t mod 2 ^ 32
      in if 2 ^ 31 \<le> m then m - 2 ^ 32 else m)"

definition hex_digit :: "nat \<Rightarrow> char" where
  "hex_digit n = ''0123456789abcdef'' ! n"

text \<open>\<^verbatim>\<open>v.toString(16)\<close> of an integer.\<close>

fun hex_of_nat :: "nat \<Rightarrow> string" where
  "hex_of_nat n =
     (if n < 16 then [hex_digit n] else hex_of_nat (n div 16) @ [hex_digit (n mod 16)])"

declare hex_of_nat.simps [simp del]

definition toString16 :: "int \<Rightarrow> string" where
  "toString16 v = (if v < 0 then CHR ''-'' # hex_of_nat (nat (- v)) else hex_of_nat (nat v))"

text \<open>
  \<^verbatim>\<open>template.replace(/[xy]/g, cb)\<close>: every \<^verbatim>\<open>x\<close> or \<^verbatim>\<open>y\<close> is replaced by what the callback
  returns for it, left to right; the callback of the \<open>k\<close>-th match sees the \<open>k\<close>-th draw.
\<close>

fun replace_xy :: "(char \<Rightarrow> real \<Rightarrow> string) \<Rightarrow> (nat \<Rightarrow> real) \<Rightarrow> nat \<Rightarrow> string \<Rightarrow> string" where
  "replace_xy cb rand i [] = []"
| "replace_xy cb rand i (c # cs) =
     (if c = CHR ''x'' \<or> c = CHR ''y''
      then cb c (rand i) @ replace_xy cb rand (Suc i) cs
      else c # replace_xy cb rand i cs)"

definition id_template :: string where
  "id_template = ''xxxxxxxx-xxxx-4xxx-yxxx-xxxxxxxxxxxx''"

text \<open>The callback: \<^verbatim>\<open>r = Math.random() * 16 | 0; v = c === 'x' ? r : (r & 0x3 | 0x8)\<close>.\<close>

definition id_digit :: "char \<Rightarrow> real \<Rightarrow> string" where
  "id_digit c x =
     (let r = to_int32 (x * 16);
          v = (if c = CHR ''x'' then r else (r AND 0x3) OR 0x8)
      in toString16 v)"

definition generateRequestId :: "(nat \<Rightarrow> real) \<Rightarrow> nat \<Rightarrow> string" where
  "generateRequestId rand i = replace_xy id_digit rand i id_template"

text \<open>The number of draws one identifier takes: one for each \<^verbatim>\<open>x\<close> or \<^verbatim>\<open>y\<close>.\<close>

definition id_draws :: nat where
  "id_draws = length (filter (\<lambda>c. c = CHR ''x'' \<or> c = CHR ''y'') id_template)"

text \<open>The shape the specification asks for (section 4.1): 8-4-4-4-12 lower-case
  hexadecimal digits, version nibble 4, variant nibble 8, 9, a or b.\<close>

definition is_hex :: "char \<Rightarrow> bool" where
  "is_hex c = (c \<in> set ''0123456789abcdef'')"

definition uuid_v4_shaped :: "string \<Rightarrow> bool" where
  "uuid_v4_shaped s =
     (length s = 36 \<and>
      list_all is_hex (take 8 s) \<and> s ! 8 = CHR ''-'' \<and>
      list_all is_hex (take 4 (drop 9 s)) \<and> s ! 13 = CHR ''-'' \<and>
      s ! 14 = CHR ''4'' \<and> list_all is_hex (take 3 (drop 15 s)) \<and> s ! 18 = CHR ''-'' \<and>
      s ! 19 \<in> set ''89ab'' \<and> list_all is_hex (take 3 (drop 20 s)) \<and> s ! 23 = CHR ''-'' \<and>
      list_all is_hex (take 12 (drop 24 s)))"

section \<open>JavaScript containers\<close>

text \<open>
  A JavaScript \<^verbatim>\<open>Set\<close> keeps its elements in insertion order. Following ECMA-262, the set
  data is a list of entries in which \<^verbatim>\<open>delete\<close> overwrites the entry with an empty mark
  (\<open>None\<close>) and \<^verbatim>\<open>add\<close> appends an element that is not yet there, so that a running
  \<^verbatim>\<open>forEach\<close> can go on by index.
\<close>

type_synonym 'a js_set = "'a option list"

definition set_has :: "'a \<Rightarrow> 'a js_set \<Rightarrow> bool" where
  "set_has x S = (Some x \<in> set S)"

definition set_add :: "'a \<Rightarrow> 'a js_set \<Rightarrow> 'a js_set" where
  "set_add x S = (if set_has x S then S else S @ [Some x])"

definition set_delete :: "'a \<Rightarrow> 'a js_set \<Rightarrow> 'a js_set" where
  "set_delete x S = map (\<lambda>e. if e = Some x then None else e) S"

text \<open>The elements of the set, in insertion order.\<close>

fun live :: "'a js_set \<Rightarrow> 'a list" where
  "live [] = []"
| "live (None # S) = live S"
| "live (Some x # S) = x # live S"

text \<open>
  What a handler does to its own registry while it runs: it may call \<^verbatim>\<open>add\<close> with some
  handler, or call an unsubscribe function (one of the closures that \<^verbatim>\<open>addMessageHandler\<close>
  and \<^verbatim>\<open>addConnectionHandler\<close> return).
\<close>

datatype 'a registry_op = Subscribe 'a | Unsubscribe 'a

fun apply_registry_op :: "'a registry_op \<Rightarrow> 'a js_set \<Rightarrow> 'a js_set" where
  "apply_registry_op (Subscribe h) S = set_add h S"
| "apply_registry_op (Unsubscribe h) S = set_delete h S"

text \<open>
  A handler is the caller's code. What one call of it does, as far as a pass over its
  registry can tell: the operations on the registry it performs, in order, and whether it
  then returns or throws.
\<close>

datatype 'a reaction = Reaction (registry_ops: "'a registry_op list") (throws: bool)

text \<open>
  \<^verbatim>\<open>S.forEach(handler => handler(value))\<close>: the loop of ECMA-262 (Set.prototype.forEach)
  runs over the entries by index, skips empty entries and reads the length again after
  every call, so that it sees what the callbacks do to \<open>S\<close>. \<open>body h\<close> is what handler \<open>h\<close>
  does when it is called. An exception that a callback throws ends the loop and leaves
  \<^verbatim>\<open>forEach\<close>. The result is the final set data, the handlers called, in order, and whether
  the loop was left by an exception. The loop need not end (a handler may delete and add
  itself again), so not returning is \<open>None\<close>.
\<close>

partial_function (option) forEach ::
  "('a \<Rightarrow> 'a reaction) \<Rightarrow> nat \<Rightarrow> 'a js_set \<Rightarrow> 'a list \<Rightarrow> ('a js_set \<times> 'a list \<times> bool) option" where
  "forEach body i S called =
     (if i < length S
      then (case S ! i of
              None \<Rightarrow> forEach body (Suc i) S called
            | Some h \<Rightarrow>
                if throws (body h)
                then Some (fold apply_registry_op (registry_ops (body h)) S, called @ [h], True)
                else forEach body (Suc i) (fold apply_registry_op (registry_ops (body h)) S)
                       (called @ [h]))
      else Some (S, called, False))"

declare forEach.simps [code]

text \<open>A JavaScript \<^verbatim>\<open>Map\<close> with string keys is an association list in insertion order:
  \<^verbatim>\<open>set\<close> is \<^const>\<open>AList.update\<close> (in place for a key that is there, appended otherwise),
  \<^verbatim>\<open>delete\<close> is \<^const>\<open>AList.delete\<close>, \<^verbatim>\<open>get\<close> is \<^const>\<open>map_of\<close>.\<close>

definition Map_has :: "'k \<Rightarrow> ('k \<times> 'v) list \<Rightarrow> bool" where
  "Map_has k m = (k \<in> set (map fst m))"

section \<open>Values of the runtime\<close>

text \<open>What \<^verbatim>\<open>JSON.parse\<close> can return. Numbers play no part in what follows.\<close>

datatype json =
    JNull
  | JBool bool
  | JNum int
  | JStr string
  | JArr "json list"
  | JObj "(string \<times> json) list"

text \<open>Reading \<^verbatim>\<open>data.request_id\<close>: a TypeError on \<^verbatim>\<open>null\<close>, the property of an object,
  \<^verbatim>\<open>undefined\<close> (\<open>None\<close>) on every other value.\<close>

datatype 'a completion = Normal 'a | Throws

fun get_property :: "json \<Rightarrow> string \<Rightarrow> json option completion" where
  "get_property JNull k = Throws"
| "get_property (JObj fields) k = Normal (map_of fields k)"
| "get_property (JBool b) k = Normal None"
| "get_property (JNum n) k = Normal None"
| "get_property (JStr s) k = Normal None"
| "get_property (JArr xs) k = Normal None"

fun truthy :: "json option \<Rightarrow> bool" where
  "truthy None = False"
| "truthy (Some JNull) = False"
| "truthy (Some (JBool b)) = b"
| "truthy (Some (JNum n)) = (n \<noteq> 0)"
| "truthy (Some (JStr s)) = (s \<noteq> [])"
| "truthy (Some (JArr xs)) = True"
| "truthy (Some (JObj fields)) = True"

text \<open>The keys of the pending table are strings; only a string value can be one of them.\<close>

fun key_of :: "json option \<Rightarrow> string option" where
  "key_of (Some (JStr k)) = Some k"
| "key_of v = None"

text \<open>
  A promise is settled by calling its \<^verbatim>\<open>resolve\<close> or its \<^verbatim>\<open>reject\<close>. The reason of a
  rejection is either an error the provider makes, \<^verbatim>\<open>new Error(message)\<close>, or the exception
  that the \<^verbatim>\<open>catch\<close> of \<^verbatim>\<open>sendRequest\<close> caught and passes on.
\<close>

datatype reason = NewError string | Caught string

datatype outcome = Resolved json | Rejected reason

text \<open>The two callbacks that the provider hands to \<^verbatim>\<open>setTimeout\<close>: the request timeout of
  \<^verbatim>\<open>sendRequest\<close> (closed over the identifier and the promise) and the reconnect of
  \<^verbatim>\<open>ws.onclose\<close>.\<close>

datatype timer_cb = RequestTimeoutCb string nat | ReconnectCb

datatype ready_state = CONNECTING | OPEN | CLOSING | CLOSED

text \<open>A \<^verbatim>\<open>WebSocket\<close> object; a handler field is \<open>True\<close> when the provider's handler is
  assigned and \<open>False\<close> when it is \<^verbatim>\<open>null\<close>.\<close>

record websocket =
  url :: string
  readyState :: ready_state
  onopen :: bool
  onmessage :: bool
  onerror :: bool
  onclose :: bool

text \<open>\<^verbatim>\<open>interface PendingRequest\<close>: \<^verbatim>\<open>resolve\<close> and \<^verbatim>\<open>reject\<close> are the two functions of one
  promise, named here by the promise's number; \<^verbatim>\<open>timeout\<close> is the timer handle.\<close>

record PendingRequest =
  promise :: nat
  timeout :: nat

text \<open>A handler is a function object; the registries compare handlers by identity.\<close>

type_synonym handler = nat

section \<open>The state of the provider\<close>

text \<open>
  The first nine fields are the hooks of \<^verbatim>\<open>WebSocketProvider\<close> (lines 26-34). The others
  are the runtime around it: the heap of sockets created so far, the armed timers (callback
  and delay in milliseconds), the promises created so far, and the calls the provider
  has made: to \<^verbatim>\<open>resolve\<close>/\<^verbatim>\<open>reject\<close> (\<open>settled\<close>), to \<^verbatim>\<open>send\<close> (\<open>sent\<close>), to the handlers
  (\<open>connectionCalls\<close>, \<open>messageCalls\<close>) and to \<^verbatim>\<open>Math.random\<close> (\<open>randomCalls\<close>, its number).
  \<open>issued\<close> lists the requests that \<^verbatim>\<open>sendRequest\<close> has put into the pending table, each with
  its promise and its identifier. A call of \<^verbatim>\<open>send\<close> is recorded by the socket and the three
  parts of the object \<^verbatim>\<open>{ action, request_id: requestId, ...params }\<close> that is serialised:
  the action, the identifier and the parameters.
\<close>

record state =
  isConnected :: bool
  isConnecting :: bool
  wsRef :: "nat option"
  pendingRequests :: "(string \<times> PendingRequest) list"
  messageHandlers :: "handler js_set"
  connectionHandlers :: "handler js_set"
  serverConfig :: "string \<times> string"
  reconnectTimeoutRef :: "nat option"
  reconnectAttempts :: nat
  sockets :: "nat \<Rightarrow> websocket"
  socketCount :: nat
  timers :: "nat \<rightharpoonup> timer_cb \<times> nat"
  timerCount :: nat
  promiseCount :: nat
  settled :: "(nat \<times> outcome) list"
  issued :: "(nat \<times> string) list"
  sent :: "(nat \<times> string \<times> string \<times> (string \<times> json) list) list"
  connectionCalls :: "(handler \<times> bool) list"
  messageCalls :: "(handler \<times> json) list"
  randomCalls :: nat

definition maxReconnectAttempts :: nat where
  "maxReconnectAttempts = 5"

definition no_socket :: websocket where
  "no_socket = \<lparr>url = [], readyState = CLOSED, onopen = False, onmessage = False,
                 onerror = False, onclose = False\<rparr>"

text \<open>The state after the first render. The handles that \<^verbatim>\<open>setTimeout\<close> returns are
  positive numbers.\<close>

definition init :: state where
  "init = \<lparr>isConnected = False, isConnecting = False, wsRef = None, pendingRequests = [],
           messageHandlers = [], connectionHandlers = [],
           serverConfig = (''192.168.0.56'', ''8081''),
           reconnectTimeoutRef = None, reconnectAttempts = 0,
           sockets = (\<lambda>_. no_socket), socketCount = 0,
           timers = Map.empty, timerCount = 1, promiseCount = 0,
           settled = [], issued = [], sent = [], connectionCalls = [], messageCalls = [],
           randomCalls = 0\<rparr>"

section \<open>Runtime operations\<close>

definition setTimeout :: "timer_cb \<Rightarrow> nat \<Rightarrow> state \<Rightarrow> nat \<times> state" where
  "setTimeout cb delay s =
     (timerCount s,
      s\<lparr>timers := (timers s)(timerCount s \<mapsto> (cb, delay)), timerCount := Suc (timerCount s)\<rparr>)"

definition clearTimeout :: "nat \<Rightarrow> state \<Rightarrow> state" where
  "clearTimeout t s = s\<lparr>timers := (timers s)(t := None)\<rparr>"

text \<open>A call of \<^verbatim>\<open>resolve\<close> or \<^verbatim>\<open>reject\<close> of promise \<open>p\<close>.\<close>

definition settle :: "nat \<Rightarrow> outcome \<Rightarrow> state \<Rightarrow> state" where
  "settle p out s = s\<lparr>settled := settled s @ [(p, out)]\<rparr>"

text \<open>\<^verbatim>\<open>WebSocket.close()\<close>: nothing on a socket that is closing or closed.\<close>

definition ws_close :: "websocket \<Rightarrow> websocket" where
  "ws_close w =
     (if readyState w = CLOSING \<or> readyState w = CLOSED then w else w\<lparr>readyState := CLOSING\<rparr>)"

text \<open>\<^verbatim>\<open>wsRef.current?.readyState === WebSocket.OPEN\<close>.\<close>

definition ws_open :: "state \<Rightarrow> bool" where
  "ws_open s = (case wsRef s of None \<Rightarrow> False | Some i \<Rightarrow> readyState (sockets s i) = OPEN)"

section \<open>The provider's functions\<close>

text \<open>
  \<^verbatim>\<open>notifyConnectionHandlers\<close> (lines 37-39) and the pass over the message observers (line
  108) each run \<^verbatim>\<open>forEach\<close> over a registry, with no \<^verbatim>\<open>try\<close> of their own. \<open>body h\<close> is
  what handler \<open>h\<close> does in this pass, with the value it is given. The result is \<open>None\<close> when
  the pass does not end, and otherwise whether an exception left the pass, together with
  the state: the registry as the callbacks left it, and the calls made. A callback acts
  on the provider through the registry of its pass and by throwing. What it does to the
  other registry, and a call of \<^verbatim>\<open>sendRequest\<close>, \<^verbatim>\<open>connect\<close> or \<^verbatim>\<open>disconnect\<close> it makes, is
  taken as an event of its own, after the handler that runs the pass: in \<^verbatim>\<open>ws.onopen\<close> and
  \<^verbatim>\<open>ws.onmessage\<close> the pass is the last statement, and the screens of this repository
  call \<^verbatim>\<open>sendRequest\<close> from an observer only when they are told \<^verbatim>\<open>true\<close>, in \<^verbatim>\<open>ws.onopen\<close>.
\<close>

definition notifyConnectionHandlers ::
  "(handler \<Rightarrow> handler reaction) \<Rightarrow> bool \<Rightarrow> state \<Rightarrow> (bool \<times> state) option" where
  "notifyConnectionHandlers body up s =
     (case forEach body 0 (connectionHandlers s) [] of
        None \<Rightarrow> None
      | Some (S, called, thrown) \<Rightarrow>
          Some (thrown,
                s\<lparr>connectionHandlers := S,
                  connectionCalls := connectionCalls s @ map (\<lambda>h. (h, up)) called\<rparr>))"

definition notifyMessageHandlers ::
  "(handler \<Rightarrow> handler reaction) \<Rightarrow> json \<Rightarrow> state \<Rightarrow> (bool \<times> state) option" where
  "notifyMessageHandlers body data s =
     (case forEach body 0 (messageHandlers s) [] of
        None \<Rightarrow> None
      | Some (S, called, thrown) \<Rightarrow>
          Some (thrown,
                s\<lparr>messageHandlers := S,
                  messageCalls := messageCalls s @ map (\<lambda>h. (h, data)) called\<rparr>))"

text \<open>
  \<^verbatim>\<open>pendingRequestsRef.current.forEach((pending) => { clearTimeout(pending.timeout);
  pending.reject(new Error(msg)); }); pendingRequestsRef.current.clear();\<close>
  (lines 126-130 and 168-172).
\<close>

definition reject_pending :: "string \<Rightarrow> string \<times> PendingRequest \<Rightarrow> state \<Rightarrow> state" where
  "reject_pending msg entry s =
     settle (promise (snd entry)) (Rejected (NewError msg)) (clearTimeout (timeout (snd entry)) s)"

definition reject_all :: "string \<Rightarrow> state \<Rightarrow> state" where
  "reject_all msg s = (fold (reject_pending msg) (pendingRequests s) s)\<lparr>pendingRequests := []\<rparr>"

text \<open>\<^verbatim>\<open>if (reconnectTimeoutRef.current) { clearTimeout(...); reconnectTimeoutRef.current = null; }\<close>
  (a timer handle is truthy).\<close>

definition clear_reconnect :: "state \<Rightarrow> state" where
  "clear_reconnect s =
     (case reconnectTimeoutRef s of
        None \<Rightarrow> s
      | Some t \<Rightarrow> (clearTimeout t s)\<lparr>reconnectTimeoutRef := None\<rparr>)"

text \<open>
  \<^verbatim>\<open>connect\<close> (lines 49-148). The body reads the state variable \<^verbatim>\<open>isConnecting\<close> of the render
  in which the function was created; that value is the first argument. \<open>ctor_ok\<close> tells
  whether \<^verbatim>\<open>new WebSocket(uri)\<close> returns (otherwise it throws and the \<^verbatim>\<open>catch\<close> runs).
\<close>

definition connect_closure :: "bool \<Rightarrow> bool \<Rightarrow> string \<Rightarrow> string \<Rightarrow> state \<Rightarrow> state" where
  "connect_closure isConnecting_seen ctor_ok ip port s =
     (if ws_open s then s
      else if isConnecting_seen then s
      else
        let s1 = clear_reconnect s;
            s2 = s1\<lparr>serverConfig := (ip, port), isConnecting := True\<rparr>;
            uri = ''ws://'' @ ip @ '':'' @ port;
            s3 = (case wsRef s2 of
                    None \<Rightarrow> s2
                  | Some i \<Rightarrow>
                      s2\<lparr>sockets := (sockets s2)
                            (i := ws_close ((sockets s2 i)\<lparr>onopen := False, onmessage := False,
                                                           onerror := False, onclose := False\<rparr>)),
                         wsRef := None\<rparr>)
        in if ctor_ok
           then s3\<lparr>sockets := (sockets s3)
                      (socketCount s3 := \<lparr>url = uri, readyState = CONNECTING, onopen = True,
                                          onmessage = True, onerror = True, onclose = True\<rparr>),
                   socketCount := Suc (socketCount s3),
                   wsRef := Some (socketCount s3)\<rparr>
           else s3\<lparr>isConnecting := False\<rparr>)"

text \<open>
  \<^verbatim>\<open>useCallback(..., [])\<close> at line 148 has no dependencies: React keeps the function of the
  first render for the life of the provider, and in the first render \<^verbatim>\<open>isConnecting\<close> is
  the initial value of \<^verbatim>\<open>useState(false)\<close>. Every call of \<^verbatim>\<open>connect\<close>, from a screen or from
  the reconnect timer, runs this function.
\<close>

definition connect :: "bool \<Rightarrow> string \<Rightarrow> string \<Rightarrow> state \<Rightarrow> state" where
  "connect = connect_closure False"

text \<open>\<^verbatim>\<open>ws.onopen\<close> (lines 86-92). The result tells whether the handler was left by an
  exception of an observer (\<open>True\<close>) or returned.\<close>

definition ws_onopen :: "(handler \<Rightarrow> handler reaction) \<Rightarrow> state \<Rightarrow> (bool \<times> state) option" where
  "ws_onopen body s =
     notifyConnectionHandlers body True
       (s\<lparr>isConnected := True, isConnecting := False, reconnectAttempts := 0\<rparr>)"

text \<open>
  \<^verbatim>\<open>data.request_id && pendingRequestsRef.current.has(data.request_id)\<close> and the \<^verbatim>\<open>get\<close> that
  follows: the entry that the frame answers, if any.
\<close>

definition matching_request :: "json option \<Rightarrow> state \<Rightarrow> (string \<times> PendingRequest) option" where
  "matching_request rid s =
     (if truthy rid
      then (case key_of rid of
              None \<Rightarrow> None
            | Some k \<Rightarrow>
                (case map_of (pendingRequests s) k of
                   None \<Rightarrow> None
                 | Some pending \<Rightarrow> Some (k, pending)))
      else None)"

text \<open>
  \<^verbatim>\<open>ws.onmessage\<close> (lines 94-112). \<open>parsed\<close> is what \<^verbatim>\<open>JSON.parse(event.data)\<close> does: \<open>None\<close>
  when it throws. Every exception of the body ends in the \<^verbatim>\<open>catch\<close>, which logs: also the
  exception of an observer, which ends the pass over the observers. So the handler
  returns, unless the pass does not end (\<open>None\<close>).
\<close>

definition ws_onmessage ::
  "(handler \<Rightarrow> handler reaction) \<Rightarrow> json option \<Rightarrow> state \<Rightarrow> state option" where
  "ws_onmessage body parsed s =
     (case parsed of
        None \<Rightarrow> Some s
      | Some data \<Rightarrow>
          (case get_property data ''request_id'' of
             Throws \<Rightarrow> Some s
           | Normal rid \<Rightarrow>
               let s1 = (case matching_request rid s of
                           None \<Rightarrow> s
                         | Some (k, pending) \<Rightarrow>
                             settle (promise pending) (Resolved data)
                               ((clearTimeout (timeout pending) s)
                                  \<lparr>pendingRequests := AList.delete k (pendingRequests s)\<rparr>))
               in (case notifyMessageHandlers body data s1 of
                     None \<Rightarrow> None
                   | Some (thrown, s2) \<Rightarrow> Some s2)))"

text \<open>\<^verbatim>\<open>ws.onerror\<close> (lines 114-116) logs.\<close>

definition ws_onerror :: "state \<Rightarrow> state" where
  "ws_onerror s = s"

text \<open>\<^verbatim>\<open>Math.min(1000 * Math.pow(2, reconnectAttemptsRef.current), 10000)\<close>.\<close>

definition reconnect_delay :: "nat \<Rightarrow> nat" where
  "reconnect_delay attempts = min (1000 * 2 ^ attempts) 10000"

text \<open>The statements of \<^verbatim>\<open>ws.onclose\<close> that follow the pass over the observers (lines
  125-140): the pending requests are rejected and the reconnect is scheduled.\<close>

definition reject_and_reconnect :: "state \<Rightarrow> state" where
  "reject_and_reconnect s2 =
     (let s3 = reject_all ''Connection closed'' s2
      in if reconnectAttempts s3 < maxReconnectAttempts
         then (let delay = reconnect_delay (reconnectAttempts s3);
                   (t, s4) = setTimeout ReconnectCb delay s3
               in s4\<lparr>reconnectTimeoutRef := Some t\<rparr>)
         else s3)"

text \<open>
  \<^verbatim>\<open>ws.onclose\<close> (lines 118-141); \<open>code\<close> is \<^verbatim>\<open>event.code\<close>, which is logged. The observers
  are called at line 123, before the pending requests are rejected, and nothing catches
  what they throw: an exception of an observer leaves \<^verbatim>\<open>ws.onclose\<close> at that line. The
  result tells whether the handler was left by an exception (\<open>True\<close>) or returned.
\<close>

definition ws_onclose ::
  "(handler \<Rightarrow> handler reaction) \<Rightarrow> nat \<Rightarrow> state \<Rightarrow> (bool \<times> state) option" where
  "ws_onclose body code s =
     (let s1 = s\<lparr>isConnected := False, isConnecting := False, wsRef := None\<rparr>
      in case notifyConnectionHandlers body False s1 of
           None \<Rightarrow> None
         | Some (thrown, s2) \<Rightarrow>
             if thrown then Some (True, s2) else Some (False, reject_and_reconnect s2))"

text \<open>\<^verbatim>\<open>disconnect\<close> (lines 150-173).\<close>

definition disconnect :: "state \<Rightarrow> state" where
  "disconnect s =
     (let s1 = s\<lparr>reconnectAttempts := maxReconnectAttempts\<rparr>;
          s2 = clear_reconnect s1;
          s3 = (case wsRef s2 of
                  None \<Rightarrow> s2
                | Some i \<Rightarrow>
                    s2\<lparr>sockets := (sockets s2)(i := ws_close ((sockets s2 i)\<lparr>onclose := False\<rparr>)),
                       wsRef := None\<rparr>);
          s4 = s3\<lparr>isConnected := False, isConnecting := False\<rparr>
      in reject_all ''Disconnected'' s4)"

text \<open>
  \<^verbatim>\<open>sendRequest\<close> (lines 175-207). The promise it returns is number \<open>promiseCount s\<close>; the
  executor runs at once. \<open>send_error\<close> is \<open>Some e\<close> when the \<^verbatim>\<open>try\<close> block
  (\<^verbatim>\<open>wsRef.current.send(JSON.stringify(request))\<close>) throws \<open>e\<close>.
\<close>

definition sendRequest ::
  "(nat \<Rightarrow> real) \<Rightarrow> string \<Rightarrow> (string \<times> json) list \<Rightarrow> string option \<Rightarrow> state \<Rightarrow> state" where
  "sendRequest rand action params send_error s =
     (let p = promiseCount s;
          s0 = s\<lparr>promiseCount := Suc p\<rparr>
      in case wsRef s0 of
           None \<Rightarrow> settle p (Rejected (NewError ''WebSocket not connected'')) s0
         | Some i \<Rightarrow>
             if readyState (sockets s0 i) \<noteq> OPEN
             then settle p (Rejected (NewError ''WebSocket not connected'')) s0
             else
               let requestId = generateRequestId rand (randomCalls s0);
                   s1 = s0\<lparr>randomCalls := randomCalls s0 + id_draws\<rparr>;
                   (t, s2) = setTimeout (RequestTimeoutCb requestId p) 30000 s1;
                   s3 = s2\<lparr>pendingRequests :=
                             AList.update requestId \<lparr>promise = p, timeout = t\<rparr> (pendingRequests s2),
                           issued := issued s2 @ [(p, requestId)]\<rparr>
               in (case send_error of
                     None \<Rightarrow> s3\<lparr>sent := sent s3 @ [(i, action, requestId, params)]\<rparr>
                   | Some e \<Rightarrow>
                       settle p (Rejected (Caught e))
                         ((clearTimeout t s3)
                            \<lparr>pendingRequests := AList.delete requestId (pendingRequests s3)\<rparr>)))"

text \<open>\<^verbatim>\<open>addMessageHandler\<close> and \<^verbatim>\<open>addConnectionHandler\<close> (lines 209-217), and the
  unsubscribe functions they return.\<close>

definition addMessageHandler :: "handler \<Rightarrow> state \<Rightarrow> state" where
  "addMessageHandler h s = s\<lparr>messageHandlers := set_add h (messageHandlers s)\<rparr>"

definition removeMessageHandler :: "handler \<Rightarrow> state \<Rightarrow> state" where
  "removeMessageHandler h s = s\<lparr>messageHandlers := set_delete h (messageHandlers s)\<rparr>"

definition addConnectionHandler :: "handler \<Rightarrow> state \<Rightarrow> state" where
  "addConnectionHandler h s = s\<lparr>connectionHandlers := set_add h (connectionHandlers s)\<rparr>"

definition removeConnectionHandler :: "handler \<Rightarrow> state \<Rightarrow> state" where
  "removeConnectionHandler h s = s\<lparr>connectionHandlers := set_delete h (connectionHandlers s)\<rparr>"

section \<open>Timers and the transport\<close>

text \<open>
  The timeout callback of \<^verbatim>\<open>sendRequest\<close> (lines 189-194) and the reconnect callback of
  \<^verbatim>\<open>ws.onclose\<close> (lines 136-139).
\<close>

definition run_timer_cb :: "bool \<Rightarrow> timer_cb \<Rightarrow> state \<Rightarrow> state" where
  "run_timer_cb ctor_ok cb s =
     (case cb of
        RequestTimeoutCb requestId p \<Rightarrow>
          if Map_has requestId (pendingRequests s)
          then settle p (Rejected (NewError ''Request timeout''))
                 (s\<lparr>pendingRequests := AList.delete requestId (pendingRequests s)\<rparr>)
          else s
      | ReconnectCb \<Rightarrow>
          connect ctor_ok (fst (serverConfig s)) (snd (serverConfig s))
            (s\<lparr>reconnectAttempts := Suc (reconnectAttempts s)\<rparr>))"

text \<open>An armed timer fires once: it leaves the armed timers and its callback runs.\<close>

definition fire_timer :: "bool \<Rightarrow> nat \<Rightarrow> state \<Rightarrow> state" where
  "fire_timer ctor_ok t s =
     (case timers s t of
        None \<Rightarrow> s
      | Some (cb, delay) \<Rightarrow> run_timer_cb ctor_ok cb (s\<lparr>timers := (timers s)(t := None)\<rparr>))"

text \<open>
  The transport's events on socket \<open>i\<close>. The runtime sets \<^verbatim>\<open>readyState\<close> and calls the handler
  that is assigned: a connecting socket opens, an open (or closing) socket delivers a
  frame, a socket that is not closed yet closes. \<open>body\<close> is what the observers do when the
  handler calls them. An exception that leaves the handler is reported by the runtime; the
  state stays as the handler left it. The result is \<open>None\<close> when the handler does not
  return, and otherwise tells whether an exception left the handler (\<open>True\<close>), with the
  state.
\<close>

definition transport_open ::
  "nat \<Rightarrow> (handler \<Rightarrow> handler reaction) \<Rightarrow> state \<Rightarrow> (bool \<times> state) option" where
  "transport_open i body s =
     (if readyState (sockets s i) = CONNECTING
      then (let s1 = s\<lparr>sockets := (sockets s)(i := (sockets s i)\<lparr>readyState := OPEN\<rparr>)\<rparr>
            in if onopen (sockets s i) then ws_onopen body s1 else Some (False, s1))
      else Some (False, s))"

definition transport_message ::
  "nat \<Rightarrow> json option \<Rightarrow> (handler \<Rightarrow> handler reaction) \<Rightarrow> state \<Rightarrow> state option" where
  "transport_message i parsed body s =
     (if (readyState (sockets s i) = OPEN \<or> readyState (sockets s i) = CLOSING)
         \<and> onmessage (sockets s i)
      then ws_onmessage body parsed s else Some s)"

definition transport_error :: "nat \<Rightarrow> state \<Rightarrow> state" where
  "transport_error i s = (if onerror (sockets s i) then ws_onerror s else s)"

definition transport_close ::
  "nat \<Rightarrow> nat \<Rightarrow> (handler \<Rightarrow> handler reaction) \<Rightarrow> state \<Rightarrow> (bool \<times> state) option" where
  "transport_close i code body s =
     (if readyState (sockets s i) \<noteq> CLOSED
      then (let s1 = s\<lparr>sockets := (sockets s)(i := (sockets s i)\<lparr>readyState := CLOSED\<rparr>)\<rparr>
            in if onclose (sockets s i) then ws_onclose body code s1 else Some (False, s1))
      else Some (False, s))"

text \<open>
  Everything that can happen to a provider, one turn of the event loop each. An event of
  the transport that calls observers carries what the observers do in that pass, so that
  an observer may act differently from one event to the next. After an exception that
  left a handler of the transport the event loop goes on with the state as it is.
\<close>

datatype event =
    Connect bool string string
  | Disconnect
  | SendRequest string "(string \<times> json) list" "string option"
  | AddMessageHandler handler
  | RemoveMessageHandler handler
  | AddConnectionHandler handler
  | RemoveConnectionHandler handler
  | TransportOpen nat "handler \<Rightarrow> handler reaction"
  | TransportMessage nat "json option" "handler \<Rightarrow> handler reaction"
  | TransportError nat
  | TransportClose nat nat "handler \<Rightarrow> handler reaction"
  | TimerFires bool nat

fun step :: "(nat \<Rightarrow> real) \<Rightarrow> event \<Rightarrow> state \<Rightarrow> state option" where
  "step rand (Connect ctor_ok ip port) s = Some (connect ctor_ok ip port s)"
| "step rand Disconnect s = Some (disconnect s)"
| "step rand (SendRequest action params send_error) s =
     Some (sendRequest rand action params send_error s)"
| "step rand (AddMessageHandler h) s = Some (addMessageHandler h s)"
| "step rand (RemoveMessageHandler h) s = Some (removeMessageHandler h s)"
| "step rand (AddConnectionHandler h) s = Some (addConnectionHandler h s)"
| "step rand (RemoveConnectionHandler h) s = Some (removeConnectionHandler h s)"
| "step rand (TransportOpen i body) s = map_option snd (transport_open i body s)"
| "step rand (TransportMessage i parsed body) s = transport_message i parsed body s"
| "step rand (TransportError i) s = Some (transport_error i s)"
| "step rand (TransportClose i code body) s = map_option snd (transport_close i code body s)"
| "step rand (TimerFires ctor_ok t) s = Some (fire_timer ctor_ok t s)"

text \<open>The events one after the other; \<open>None\<close> when one of them does not return.\<close>

fun run :: "(nat \<Rightarrow> real) \<Rightarrow> event list \<Rightarrow> state \<Rightarrow> state option" where
  "run rand [] s = Some s"
| "run rand (e # evs) s =
     (case step rand e s of None \<Rightarrow> None | Some s' \<Rightarrow> run rand evs s')"

section \<open>Notions used in the properties\<close>

text \<open>Two random sources: one always returns 0, the other always returns 1/2.\<close>

definition zeros :: "nat \<Rightarrow> real" where
  "zeros = (\<lambda>_. 0)"

definition halves :: "nat \<Rightarrow> real" where
  "halves = (\<lambda>_. 1/2)"

text \<open>Observers that leave the registry alone and return.\<close>

definition quiet :: "handler \<Rightarrow> handler reaction" where
  "quiet h = Reaction [] False"

text \<open>A provider that has called \<^verbatim>\<open>connect\<close> once and waits for the transport to open.\<close>

definition connecting_state :: state where
  "connecting_state = connect True ''192.168.0.56'' ''8081'' init"

text \<open>A connected provider with one request outstanding: the state that the events of
  \<open>one_pending_trace\<close> lead to.\<close>

definition one_pending_trace :: "event list" where
  "one_pending_trace =
     [Connect True ''192.168.0.56'' ''8081'', TransportOpen 0 quiet, SendRequest ''ping'' [] None]"

definition one_pending :: state where
  "one_pending = (case run zeros one_pending_trace init of None \<Rightarrow> init | Some s \<Rightarrow> s)"

text \<open>The frame carries a \<^verbatim>\<open>request_id\<close> that is a key of the pending table.\<close>

definition answers_pending :: "json \<Rightarrow> state \<Rightarrow> bool" where
  "answers_pending data s =
     (case get_property data ''request_id'' of
        Normal (Some (JStr k)) \<Rightarrow> Map_has k (pendingRequests s)
      | _ \<Rightarrow> False)"

text \<open>A random source whose first three identifiers differ, and a connected provider with
  two connection observers, one message observer and three requests outstanding.\<close>

definition spread :: "nat \<Rightarrow> real" where
  "spread n = (if n < 31 then 0 else if n < 62 then 1/16 else 1/8)"

definition three_pending_trace :: "event list" where
  "three_pending_trace =
     [AddConnectionHandler 1, AddConnectionHandler 2, AddMessageHandler 7,
      AddMessageHandler 8, AddMessageHandler 9,
      Connect True ''192.168.0.56'' ''8081'', TransportOpen 0 quiet,
      SendRequest ''ping'' [] None, SendRequest ''list'' [] None,
      SendRequest ''get'' [] None]"

definition three_pending :: state where
  "three_pending = (case run spread three_pending_trace init of None \<Rightarrow> init | Some s \<Rightarrow> s)"

text \<open>Ways a handler can act during a pass: every handler unsubscribes itself; handler 1
  unsubscribes handler 2; handler 1 subscribes handler 4; handler 1 throws; handler 7
  unsubscribes handler 8; handler 8 throws; handler 1 unsubscribes handler 2 and
  subscribes it again; handler 1 subscribes handler 4 and handler 2 unsubscribes it.\<close>

definition unsubscribes_itself :: "handler \<Rightarrow> handler reaction" where
  "unsubscribes_itself g = Reaction [Unsubscribe g] False"

definition first_removes_second :: "handler \<Rightarrow> handler reaction" where
  "first_removes_second g = Reaction (if g = 1 then [Unsubscribe 2] else []) False"

definition first_adds_fourth :: "handler \<Rightarrow> handler reaction" where
  "first_adds_fourth g = Reaction (if g = 1 then [Subscribe 4] else []) False"


definition seventh_removes_eighth :: "handler \<Rightarrow> handler reaction" where
  "seventh_removes_eighth g = Reaction (if g = 7 then [Unsubscribe 8] else []) False"

definition eighth_throws :: "handler \<Rightarrow> handler reaction" where
  "eighth_throws g = Reaction [] (g = 8)"

definition first_renews_second :: "handler \<Rightarrow> handler reaction" where
  "first_renews_second g = Reaction (if g = 1 then [Unsubscribe 2, Subscribe 2] else []) False"

definition fourth_added_and_removed :: "handler \<Rightarrow> handler reaction" where
  "fourth_added_and_removed g =
     Reaction (if g = 1 then [Subscribe 4] else if g = 2 then [Unsubscribe 4] else []) False"

section \<open>Notions used for the reconnect policy\<close>



text \<open>No observer throws in the pass; no observer subscribes a handler in the pass (a
  pass in which nothing is subscribed ends).\<close>

definition never_throws :: "('a \<Rightarrow> 'a reaction) \<Rightarrow> bool" where
  "never_throws body = (\<forall>h. \<not> throws (body h))"

definition never_subscribes :: "('a \<Rightarrow> 'a reaction) \<Rightarrow> bool" where
  "never_subscribes body =
     (\<forall>h. \<forall>op \<in> set (registry_ops (body h)). \<exists>g. op = Unsubscribe g)"

text \<open>An event in which no observer subscribes a handler.\<close>

fun pass_ends :: "event \<Rightarrow> bool" where
  "pass_ends (TransportOpen i body) = never_subscribes body"
| "pass_ends (TransportMessage i parsed body) = never_subscribes body"
| "pass_ends (TransportClose i code body) = never_subscribes body"
| "pass_ends e = True"







section \<open>Notions used for the settlement of requests\<close>

text \<open>The number of calls of \<^verbatim>\<open>resolve\<close> or \<^verbatim>\<open>reject\<close> of promise \<open>p\<close> so far.\<close>

definition settle_count :: "nat \<Rightarrow> state \<Rightarrow> nat" where
  "settle_count p s = length (filter (\<lambda>c. fst c = p) (settled s))"

text \<open>
  The ways a request with identifier \<open>k\<close> is settled: resolved with a frame whose
  \<^verbatim>\<open>request_id\<close> is \<open>k\<close>; rejected by its timeout, by \<^verbatim>\<open>ws.onclose\<close> or by \<^verbatim>\<open>disconnect\<close>; or
  rejected with what \<^verbatim>\<open>send\<close> threw.
\<close>

fun outcome_ok :: "string \<Rightarrow> outcome \<Rightarrow> bool" where
  "outcome_ok k (Resolved data) = (get_property data ''request_id'' = Normal (Some (JStr k)))"
| "outcome_ok k (Rejected (NewError m)) =
     (m = ''Request timeout'' \<or> m = ''Connection closed'' \<or> m = ''Disconnected'')"
| "outcome_ok k (Rejected (Caught e)) = True"

text \<open>The identifier that a \<^verbatim>\<open>sendRequest\<close> generates is not a key of the pending table at
  that moment, for every \<^verbatim>\<open>sendRequest\<close> among the events.\<close>

fun fresh_id :: "(nat \<Rightarrow> real) \<Rightarrow> event \<Rightarrow> state \<Rightarrow> bool" where
  "fresh_id rand (SendRequest action params send_error) s =
     (ws_open s \<longrightarrow> \<not> Map_has (generateRequestId rand (randomCalls s)) (pendingRequests s))"
| "fresh_id rand e s = True"

fun collision_free :: "(nat \<Rightarrow> real) \<Rightarrow> event list \<Rightarrow> state \<Rightarrow> bool" where
  "collision_free rand [] s = True"
| "collision_free rand (e # evs) s =
     (fresh_id rand e s
      \<and> (case step rand e s of None \<Rightarrow> True | Some s' \<Rightarrow> collision_free rand evs s'))"

text \<open>
  What holds of the pending table, the timers and the promises in every state that
  collision-free events can lead to.
\<close>

definition req_inv :: "state \<Rightarrow> bool" where
  "req_inv s =
     (distinct (map fst (pendingRequests s))
      \<and> distinct (map (promise \<circ> snd) (pendingRequests s))
      \<and> (\<forall>e \<in> set (pendingRequests s).
            timers s (timeout (snd e)) = Some (RequestTimeoutCb (fst e) (promise (snd e)), 30000)
          \<and> (promise (snd e), fst e) \<in> set (issued s)
          \<and> settle_count (promise (snd e)) s = 0)
      \<and> (\<forall>t k p delay. timers s t = Some (RequestTimeoutCb k p, delay) \<longrightarrow>
            (k, \<lparr>promise = p, timeout = t\<rparr>) \<in> set (pendingRequests s))
      \<and> (\<forall>r \<in> set (issued s). fst r < promiseCount s)
      \<and> (\<forall>r \<in> set (issued s). fst r \<notin> (promise \<circ> snd) ` set (pendingRequests s) \<longrightarrow>
            settle_count (fst r) s = 1
          \<and> (\<forall>out. (fst r, out) \<in> set (settled s) \<longrightarrow> outcome_ok (snd r) out))
      \<and> (\<forall>c \<in> set (settled s). fst c < promiseCount s)
      \<and> (\<forall>t. timers s t \<noteq> None \<longrightarrow> t < timerCount s)
      \<and> distinct (map fst (issued s))
      \<and> (\<forall>t. reconnectTimeoutRef s = Some t \<longrightarrow>
            t < timerCount s \<and> (\<forall>k p delay. timers s t \<noteq> Some (RequestTimeoutCb k p, delay))))"

text \<open>Three traces for the settlement of requests: a request answered by the server (and
  the state the trace leads to), a request cut off by \<^verbatim>\<open>disconnect\<close>, and two requests that
  draw the same identifier, of which the server answers one before the first timer fires.\<close>

definition pong :: json where
  "pong = JObj [(''request_id'', JStr ''00000000-0000-4000-8000-000000000000''),
                (''success'', JBool True), (''data'', JStr ''pong'')]"

definition answered_trace :: "event list" where
  "answered_trace =
     [Connect True ''192.168.0.56'' ''8081'', TransportOpen 0 quiet, SendRequest ''ping'' [] None,
      TransportMessage 0 (Some pong) quiet]"

definition answered_state :: state where
  "answered_state = (case run zeros answered_trace init of None \<Rightarrow> init | Some s \<Rightarrow> s)"

definition disconnected_trace :: "event list" where
  "disconnected_trace =
     [Connect True ''192.168.0.56'' ''8081'', TransportOpen 0 quiet, SendRequest ''ping'' [] None,
      Disconnect]"

definition collision_trace :: "event list" where
  "collision_trace =
     [Connect True ''192.168.0.56'' ''8081'', TransportOpen 0 quiet, SendRequest ''ping'' [] None,
      SendRequest ''ping'' [] None, TransportMessage 0 (Some pong) quiet, TimerFires True 1]"

section \<open>Properties of the identifier generator\<close>

lemma to_int32_unit:
  assumes "0 \<le> x" "x < 1"
  shows "to_int32 (x * 16) = \<lfloor>x * 16\<rfloor> \<and> 0 \<le> \<lfloor>x * 16\<rfloor> \<and> \<lfloor>x * 16\<rfloor> < 16"
proof -
  have f0: "0 \<le> \<lfloor>x * 16\<rfloor>" using assms by simp
  have "x * 16 < 16" using assms by simp
  then have f1: "\<lfloor>x * 16\<rfloor> < 16" by (simp add: floor_less_iff)
  have "\<lfloor>x * 16\<rfloor> mod 2 ^ 32 = \<lfloor>x * 16\<rfloor>" using f0 f1 by simp
  then show ?thesis using f0 f1 assms by (simp add: to_int32_def Let_def)
qed

lemma hex_digit_is_hex:
  assumes "n < 16"
  shows "is_hex (hex_digit n)"
proof -
  from assms have "n \<in> {0,1,2,3,4,5,6,7,8,9,10,11,12,13,14,15}" by simp arith
  then show ?thesis unfolding is_hex_def hex_digit_def by (elim insertE; simp)
qed

lemma variant_nibble:
  assumes "0 \<le> r" "r < 16"
  shows "((r::int) AND 0x3) OR 0x8 \<in> {8, 9, 10, 11}"
proof -
  from assms have "r \<in> {0,1,2,3,4,5,6,7,8,9,10,11,12,13,14,15}" by simp arith
  then show ?thesis by (elim insertE; simp)
qed

lemma id_digit_x:
  assumes "0 \<le> x" "x < 1"
  shows "\<exists>d. id_digit (CHR ''x'') x = [d] \<and> is_hex d"
proof -
  from to_int32_unit[OF assms]
  have r: "to_int32 (x * 16) = \<lfloor>x * 16\<rfloor>" "0 \<le> \<lfloor>x * 16\<rfloor>" "\<lfloor>x * 16\<rfloor> < 16" by auto
  then have "nat \<lfloor>x * 16\<rfloor> < 16" by linarith
  then show ?thesis
    using r by (simp add: id_digit_def toString16_def hex_of_nat.simps hex_digit_is_hex)
qed

lemma id_digit_y:
  assumes "0 \<le> x" "x < 1"
  shows "\<exists>d. id_digit (CHR ''y'') x = [d] \<and> d \<in> set ''89ab''"
proof -
  from to_int32_unit[OF assms]
  have r: "to_int32 (x * 16) = \<lfloor>x * 16\<rfloor>" "0 \<le> \<lfloor>x * 16\<rfloor>" "\<lfloor>x * 16\<rfloor> < 16" by auto
  from variant_nibble[OF r(2,3)] show ?thesis
    using r(1) by (auto simp add: id_digit_def toString16_def hex_of_nat.simps hex_digit_def)
qed

text \<open>
  C9. Whatever numbers in \<open>[0, 1)\<close> the random source returns, and from whatever position
  it is read, the generator returns (it is a total function, with no failing branch) a
  token of 36 characters: 32 lower-case hexadecimal digits grouped 8-4-4-4-12 by hyphens,
  the version nibble \<^verbatim>\<open>4\<close> and the variant nibble one of \<^verbatim>\<open>8\<close>, \<^verbatim>\<open>9\<close>, \<^verbatim>\<open>a\<close>, \<^verbatim>\<open>b\<close>.
\<close>

theorem generateRequestId_shape:
  assumes "\<forall>k. 0 \<le> rand k \<and> rand k < 1"
  shows "uuid_v4_shaped (generateRequestId rand i)"
proof -
  have X: "\<exists>d. id_digit (CHR ''x'') (rand k) = [d] \<and> is_hex d" for k
    using assms id_digit_x by blast
  have Y: "\<exists>d. id_digit (CHR ''y'') (rand k) = [d] \<and> d \<in> set ''89ab''" for k
    using assms id_digit_y by blast
  define dx where "dx k = hd (id_digit (CHR ''x'') (rand k))" for k
  define dy where "dy k = hd (id_digit (CHR ''y'') (rand k))" for k
  have x1: "id_digit (CHR ''x'') (rand k) = [dx k]" for k using X[of k] by (auto simp: dx_def)
  have x2: "is_hex (dx k)" for k using X[of k] by (auto simp: dx_def)
  have y1: "id_digit (CHR ''y'') (rand k) = [dy k]" for k using Y[of k] by (auto simp: dy_def)
  have y2: "dy k \<in> set ''89ab''" for k using Y[of k] by (auto simp: dy_def)
  show ?thesis
    unfolding generateRequestId_def id_template_def uuid_v4_shaped_def
    using x2 y2 by (simp add: x1 y1)
qed

theorem generateRequestId_shape_witness:
  "(\<forall>k. 0 \<le> halves k \<and> halves k < 1)
   \<and> uuid_v4_shaped (generateRequestId halves 0)
   \<and> generateRequestId halves 0 = ''88888888-8888-4888-8888-888888888888''"
  using generateRequestId_shape[of halves 0]
  by (simp add: halves_def generateRequestId_def id_template_def id_digit_def to_int32_def
      toString16_def hex_of_nat.simps hex_digit_def)

section \<open>Basic facts about the provider's functions\<close>

lemma zero_id: "generateRequestId zeros i = ''00000000-0000-4000-8000-000000000000''"
  by (simp add: zeros_def generateRequestId_def id_template_def id_digit_def to_int32_def
      toString16_def hex_of_nat.simps hex_digit_def)

lemma id_draws_31: "id_draws = 31"
  by (simp add: id_draws_def id_template_def)

lemma live_set: "set (live S) = {h. set_has h S}"
  by (induction S rule: live.induct) (auto simp: set_has_def)

text \<open>The pass over the pending table calls \<^verbatim>\<open>reject\<close> once for every entry, in the order
  of the table, and cancels the entries' timers; nothing else changes.\<close>

lemma fold_reject_pending:
  "fold (reject_pending msg) es s =
     s\<lparr>timers := timers s |` (- (timeout \<circ> snd) ` set es),
       settled := settled s @ map (\<lambda>e. (promise (snd e), Rejected (NewError msg))) es\<rparr>"
proof (induction es arbitrary: s)
  case Nil
  show ?case by simp
next
  case (Cons e es)
  have t: "((timers s)(timeout (snd e) := None)) |` (- (timeout \<circ> snd) ` set es)
           = timers s |` (- (timeout \<circ> snd) ` set (e # es))"
    by (rule ext) (auto simp: restrict_map_def)
  have "fold (reject_pending msg) (e # es) s = fold (reject_pending msg) es (reject_pending msg e s)"
    by simp
  also have "\<dots> = (reject_pending msg e s)
      \<lparr>timers := timers (reject_pending msg e s) |` (- (timeout \<circ> snd) ` set es),
       settled := settled (reject_pending msg e s)
                  @ map (\<lambda>e. (promise (snd e), Rejected (NewError msg))) es\<rparr>"
    by (rule Cons.IH)
  also have "\<dots> = s\<lparr>timers := timers s |` (- (timeout \<circ> snd) ` set (e # es)),
       settled := settled s @ map (\<lambda>e. (promise (snd e), Rejected (NewError msg))) (e # es)\<rparr>"
    using t by (simp add: reject_pending_def settle_def clearTimeout_def)
  finally show ?case .
qed

lemma reject_all_eq:
  "reject_all msg s =
     s\<lparr>pendingRequests := [],
       timers := timers s |` (- (timeout \<circ> snd) ` set (pendingRequests s)),
       settled := settled s
                  @ map (\<lambda>e. (promise (snd e), Rejected (NewError msg))) (pendingRequests s)\<rparr>"
  by (simp add: reject_all_def fold_reject_pending)

lemma sendRequest_not_open:
  assumes "\<not> ws_open s"
  shows "sendRequest rand action params send_error s =
           s\<lparr>promiseCount := Suc (promiseCount s),
             settled := settled s
                        @ [(promiseCount s, Rejected (NewError ''WebSocket not connected''))]\<rparr>"
  using assms by (auto simp: sendRequest_def ws_open_def settle_def Let_def split: option.splits)

lemma connecting_state_simps:
  "isConnecting connecting_state" "wsRef connecting_state = Some 0"
  "socketCount connecting_state = 1" "reconnectTimeoutRef connecting_state = None"
  "sockets connecting_state 0 = \<lparr>url = ''ws://192.168.0.56:8081'', readyState = CONNECTING,
      onopen = True, onmessage = True, onerror = True, onclose = True\<rparr>"
  by (simp_all add: connecting_state_def connect_def connect_closure_def ws_open_def init_def
      clear_reconnect_def Let_def)

section \<open>A pass over a registry\<close>

text \<open>
  Induction over a pass that returns: the index is past the end; the entry is empty; the
  handler called throws; the handler called returns and the pass goes on.
\<close>

lemma forEach_induct [consumes 1, case_names finished skip thrown call]:
  assumes run: "forEach body i S called = Some r"
    and finished: "\<And>i S called. \<not> i < length S \<Longrightarrow> P i S called (S, called, False)"
    and skip: "\<And>i S called r. i < length S \<Longrightarrow> S ! i = None \<Longrightarrow>
            forEach body (Suc i) S called = Some r \<Longrightarrow> P (Suc i) S called r \<Longrightarrow> P i S called r"
    and thrown: "\<And>i S called h. i < length S \<Longrightarrow> S ! i = Some h \<Longrightarrow> throws (body h) \<Longrightarrow>
            P i S called (fold apply_registry_op (registry_ops (body h)) S, called @ [h], True)"
    and call: "\<And>i S called h r. i < length S \<Longrightarrow> S ! i = Some h \<Longrightarrow> \<not> throws (body h) \<Longrightarrow>
            forEach body (Suc i) (fold apply_registry_op (registry_ops (body h)) S) (called @ [h]) = Some r \<Longrightarrow>
            P (Suc i) (fold apply_registry_op (registry_ops (body h)) S) (called @ [h]) r \<Longrightarrow>
            P i S called r"
  shows "P i S called r"
proof -
  let ?Q = "\<lambda>b i S called r. b = body \<longrightarrow> forEach body i S called = Some r \<and> P i S called r"
  have "?Q body i S called r"
  proof (rule forEach.raw_induct[where P = ?Q, OF _ run], goal_cases)
    case (1 f b i S called r)
    show ?case
    proof
      assume b: "b = body"
      note eq = 1(2)[unfolded b]
      note IH = 1(1)[of body, simplified]
      show "forEach body i S called = Some r \<and> P i S called r"
      proof (cases "i < length S")
        case False
        with eq have r: "r = (S, called, False)" by simp
        have "forEach body i S called = Some (S, called, False)"
          using False by (subst forEach.simps) simp
        then show ?thesis using finished[OF False] r by simp
      next
        case True
        show ?thesis
        proof (cases "S ! i")
          case None
          with True eq have "f body (Suc i) S called = Some r" by simp
          from IH[OF this] have a: "forEach body (Suc i) S called = Some r" "P (Suc i) S called r"
            by auto
          have "forEach body i S called = Some r"
            using True None a(1) by (subst forEach.simps) simp
          then show ?thesis using skip[OF True None a] by simp
        next
          case (Some h)
          show ?thesis
          proof (cases "throws (body h)")
            case t: True
            with True Some eq
            have r: "r = (fold apply_registry_op (registry_ops (body h)) S, called @ [h], True)"
              by simp
            have "forEach body i S called = Some r"
              using True Some t r by (subst forEach.simps) simp
            then show ?thesis using thrown[OF True Some t] r by simp
          next
            case t: False
            with True Some eq
            have "f body (Suc i) (fold apply_registry_op (registry_ops (body h)) S) (called @ [h]) = Some r"
              by simp
            from IH[OF this]
            have a: "forEach body (Suc i) (fold apply_registry_op (registry_ops (body h)) S) (called @ [h]) = Some r"
              "P (Suc i) (fold apply_registry_op (registry_ops (body h)) S) (called @ [h]) r"
              by auto
            have "forEach body i S called = Some r"
              using True Some t a(1) by (subst forEach.simps) simp
            then show ?thesis using call[OF True Some t a] by simp
          qed
        qed
      qed
    qed
  qed
  then show ?thesis by simp
qed

text \<open>What the operations of one callback do to the set data: entries are appended or
  emptied, never filled again.\<close>

lemma length_set_delete: "length (set_delete h S) = length S"
  by (simp add: set_delete_def)

lemma fold_ops_length: "length S \<le> length (fold apply_registry_op ops S)"
proof (induction ops arbitrary: S)
  case Nil
  show ?case by simp
next
  case (Cons op ops)
  have "length S \<le> length (apply_registry_op op S)"
    by (cases op) (simp_all add: set_add_def set_delete_def)
  with Cons[of "apply_registry_op op S"] show ?case by simp
qed

lemma apply_op_nth:
  assumes "j < length S" "apply_registry_op op S ! j = Some g"
  shows "S ! j = Some g"
  using assms
  by (cases op) (auto simp: set_add_def set_delete_def nth_append split: if_splits)

lemma fold_ops_nth:
  assumes "j < length S" "fold apply_registry_op ops S ! j = Some g"
  shows "S ! j = Some g"
  using assms
proof (induction ops arbitrary: S)
  case Nil
  then show ?case by simp
next
  case (Cons op ops)
  have l: "length S \<le> length (apply_registry_op op S)"
    using fold_ops_length[of S "[op]"] by simp
  from Cons.prems have "fold apply_registry_op ops (apply_registry_op op S) ! j = Some g" by simp
  from Cons.IH[OF _ this] l Cons.prems(1) have "apply_registry_op op S ! j = Some g" by simp
  from apply_op_nth[OF Cons.prems(1) this] show ?case .
qed

lemma fold_ops_keeps:
  assumes "set_has h S" "Unsubscribe h \<notin> set ops"
  shows "set_has h (fold apply_registry_op ops S)"
  using assms
proof (induction ops arbitrary: S)
  case Nil
  then show ?case by simp
next
  case (Cons op ops)
  have "set_has h (apply_registry_op op S)"
    using Cons.prems by (cases op) (auto simp: set_add_def set_delete_def set_has_def)
  from Cons.IH[OF this] Cons.prems(2) show ?case by simp
qed

lemma fold_ops_adds:
  assumes "Subscribe h \<in> set ops" "Unsubscribe h \<notin> set ops"
  shows "set_has h (fold apply_registry_op ops S)"
  using assms
proof (induction ops arbitrary: S)
  case Nil
  then show ?case by simp
next
  case (Cons op ops)
  show ?case
  proof (cases "op = Subscribe h")
    case True
    have "set_has h (apply_registry_op op S)" by (simp add: True set_add_def set_has_def)
    from fold_ops_keeps[OF this] Cons.prems(2) show ?thesis by simp
  next
    case False
    with Cons.prems have "Subscribe h \<in> set ops" "Unsubscribe h \<notin> set ops" by auto
    from Cons.IH[OF this] show ?thesis by simp
  qed
qed

lemma fold_ops_absent:
  assumes "\<not> set_has h S" "Subscribe h \<notin> set ops"
  shows "\<not> set_has h (fold apply_registry_op ops S)"
  using assms
proof (induction ops arbitrary: S)
  case Nil
  then show ?case by simp
next
  case (Cons op ops)
  have "\<not> set_has h (apply_registry_op op S)"
    using Cons.prems by (cases op) (auto simp: set_add_def set_delete_def set_has_def)
  from Cons.IH[OF this] Cons.prems(2) show ?case by simp
qed

lemma fold_ops_removes:
  assumes "Unsubscribe h \<in> set ops" "Subscribe h \<notin> set ops"
  shows "\<not> set_has h (fold apply_registry_op ops S)"
  using assms
proof (induction ops arbitrary: S)
  case Nil
  then show ?case by simp
next
  case (Cons op ops)
  show ?case
  proof (cases "op = Unsubscribe h")
    case True
    have "\<not> set_has h (apply_registry_op op S)" by (auto simp: True set_delete_def set_has_def)
    from fold_ops_absent[OF this] Cons.prems(2) show ?thesis by simp
  next
    case False
    with Cons.prems have "Unsubscribe h \<in> set ops" "Subscribe h \<notin> set ops" by auto
    from Cons.IH[OF this] show ?thesis by simp
  qed
qed

lemma apply_op_drop:
  assumes "Some h \<in> set (drop i (apply_registry_op op S))"
  shows "Some h \<in> set (drop i S) \<or> op = Subscribe h"
  using assms
  by (cases op) (auto simp: set_add_def set_delete_def drop_map split: if_splits dest: in_set_dropD)

lemma fold_ops_drop:
  assumes "Some h \<in> set (drop i (fold apply_registry_op ops S))"
  shows "Some h \<in> set (drop i S) \<or> Subscribe h \<in> set ops"
  using assms
proof (induction ops arbitrary: S)
  case Nil
  then show ?case by simp
next
  case (Cons op ops)
  from Cons.prems have "Some h \<in> set (drop i (fold apply_registry_op ops (apply_registry_op op S)))"
    by simp
  from Cons.IH[OF this] apply_op_drop[of h i op S] show ?case by auto
qed

lemma fold_unsubscribes_length:
  assumes "\<forall>op \<in> set ops. \<exists>g. op = Unsubscribe g"
  shows "length (fold apply_registry_op ops S) = length S"
  using assms
proof (induction ops arbitrary: S)
  case Nil
  show ?case by simp
next
  case (Cons op ops)
  from Cons.prems obtain g where "op = Unsubscribe g" by auto
  then have "length (apply_registry_op op S) = length S" by (simp add: length_set_delete)
  with Cons.IH[of "apply_registry_op op S"] Cons.prems show ?case by simp
qed

lemma forEach_extends:
  assumes "forEach body i S called = Some r"
  shows "\<exists>new. fst (snd r) = called @ new"
  using assms by (induction rule: forEach_induct) auto

lemma forEach_thrown:
  assumes "forEach body i S called = Some r" "snd (snd r)"
  shows "\<exists>g \<in> set (fst (snd r)). throws (body g)"
  using assms by (induction rule: forEach_induct) auto

lemma forEach_keeps:
  assumes "forEach body i S called = Some r" "set_has h S"
    and "\<forall>g \<in> set (fst (snd r)). Unsubscribe h \<notin> set (registry_ops (body g))"
  shows "set_has h (fst r)"
  using assms
proof (induction rule: forEach_induct)
  case (finished i S called)
  then show ?case by simp
next
  case (skip i S called r)
  then show ?case by simp
next
  case (thrown i S called g)
  then show ?case by (simp add: fold_ops_keeps)
next
  case (call i S called g r)
  from forEach_extends[OF call(4)] have "g \<in> set (fst (snd r))" by auto
  with call(7) have "Unsubscribe h \<notin> set (registry_ops (body g))" by blast
  from fold_ops_keeps[OF call(6) this] call(5,7) show ?case by simp
qed

lemma forEach_complete:
  assumes "forEach body i S called = Some r" "\<not> snd (snd r)"
    and "\<forall>j < i. \<forall>g. j < length S \<and> S ! j = Some g \<longrightarrow> g \<in> set called"
  shows "\<forall>h. set_has h (fst r) \<longrightarrow> h \<in> set (fst (snd r))"
  using assms
proof (induction rule: forEach_induct)
  case (finished i S called)
  show ?case
  proof (intro allI impI)
    fix h assume "set_has h (fst (S, called, False))"
    then obtain j where j: "j < length S" "S ! j = Some h"
      by (auto simp: set_has_def in_set_conv_nth)
    from j(1) finished(1) have "j < i" by simp
    with finished(3) j show "h \<in> set (fst (snd (S, called, False)))" by auto
  qed
next
  case (skip i S called r)
  have "\<forall>j < Suc i. \<forall>g. j < length S \<and> S ! j = Some g \<longrightarrow> g \<in> set called"
    using skip(2,6) by (auto simp: less_Suc_eq)
  from skip(4)[OF skip(5) this] show ?case .
next
  case (thrown i S called g)
  then show ?case by simp
next
  case (call i S called g r)
  let ?S = "fold apply_registry_op (registry_ops (body g)) S"
  have "\<forall>j < Suc i. \<forall>g'. j < length ?S \<and> ?S ! j = Some g' \<longrightarrow> g' \<in> set (called @ [g])"
  proof (intro allI impI)
    fix j g' assume j: "j < Suc i" and a: "j < length ?S \<and> ?S ! j = Some g'"
    from j call(1) have jl: "j < length S" by simp
    from fold_ops_nth[OF jl] a have o: "S ! j = Some g'" by blast
    show "g' \<in> set (called @ [g])"
    proof (cases "j = i")
      case True
      with o call(2) show ?thesis by simp
    next
      case False
      with j have "j < i" by simp
      with call(7) jl o show ?thesis by auto
    qed
  qed
  from call(5)[OF call(6) this] show ?case .
qed

lemma forEach_sound:
  assumes "forEach body i S called = Some r" "h \<in> set (fst (snd r))"
  shows "h \<in> set called \<or> Some h \<in> set (drop i S)
         \<or> (\<exists>g \<in> set (fst (snd r)). Subscribe h \<in> set (registry_ops (body g)))"
  using assms
proof (induction rule: forEach_induct)
  case (finished i S called)
  then show ?case by simp
next
  case (skip i S called r)
  from skip(4)[OF skip(5)] set_drop_subset_set_drop[of i "Suc i" S] show ?case by auto
next
  case (thrown i S called g)
  from thrown(1,2) have "Some g \<in> set (drop i S)"
    by (simp add: Cons_nth_drop_Suc[symmetric])
  with thrown(4) show ?case by auto
next
  case (call i S called g r)
  from forEach_extends[OF call(4)] have gc: "g \<in> set (fst (snd r))" by auto
  from call(1,2) have gi: "Some g \<in> set (drop i S)"
    by (simp add: Cons_nth_drop_Suc[symmetric])
  from call(5)[OF call(6)]
  consider "h \<in> set called" | "h = g"
    | "Some h \<in> set (drop (Suc i) (fold apply_registry_op (registry_ops (body g)) S))"
    | "\<exists>g \<in> set (fst (snd r)). Subscribe h \<in> set (registry_ops (body g))"
    by auto
  then show ?case
  proof cases
    case 3
    from fold_ops_drop[OF 3] set_drop_subset_set_drop[of i "Suc i" S] gc show ?thesis by auto
  qed (use gi in auto)
qed

lemma forEach_added:
  assumes "forEach body i S called = Some r"
    and "g \<in> set (drop (length called) (fst (snd r)))"
    and "Subscribe h \<in> set (registry_ops (body g))"
    and "\<forall>g' \<in> set (fst (snd r)). Unsubscribe h \<notin> set (registry_ops (body g'))"
  shows "set_has h (fst r)"
  using assms
proof (induction rule: forEach_induct)
  case (finished i S called)
  then show ?case by simp
next
  case (skip i S called r)
  then show ?case by simp
next
  case (thrown i S called g0)
  then show ?case by (simp add: fold_ops_adds)
next
  case (call i S called g0 r)
  from forEach_extends[OF call(4)] obtain new where new: "fst (snd r) = (called @ [g0]) @ new"
    by blast
  then have g0: "g0 \<in> set (fst (snd r))" by simp
  from call(6) new have "g = g0 \<or> g \<in> set new" by auto
  then show ?case
  proof
    assume "g = g0"
    with call(7,8) g0 have "set_has h (fold apply_registry_op (registry_ops (body g0)) S)"
      by (intro fold_ops_adds) auto
    from forEach_keeps[OF call(4) this call(8)] show ?thesis .
  next
    assume "g \<in> set new"
    then have "g \<in> set (drop (length (called @ [g0])) (fst (snd r)))" by (simp add: new)
    from call(5)[OF this call(7,8)] show ?thesis .
  qed
qed

lemma forEach_returns:
  assumes "\<forall>h. \<forall>op \<in> set (registry_ops (body h)). \<exists>g. op = Unsubscribe g"
  shows "\<exists>r. forEach body i S called = Some r"
proof (induction "length S - i" arbitrary: i S called rule: less_induct)
  case less
  show ?case
  proof (cases "i < length S")
    case False
    then have "forEach body i S called = Some (S, called, False)"
      by (subst forEach.simps) simp
    then show ?thesis by blast
  next
    case True
    show ?thesis
    proof (cases "S ! i")
      case None
      have lt: "length S - Suc i < length S - i" using True by simp
      from less.hyps[OF lt, of called] obtain r where "forEach body (Suc i) S called = Some r"
        by blast
      then have "forEach body i S called = Some r" using True None
        by (subst forEach.simps) simp
      then show ?thesis by blast
    next
      case (Some h)
      let ?S = "fold apply_registry_op (registry_ops (body h)) S"
      have "length ?S = length S" using assms by (intro fold_unsubscribes_length) blast
      then have lt: "length ?S - Suc i < length S - i" using True by simp
      from less.hyps[OF lt, of "called @ [h]"] obtain r
        where r: "forEach body (Suc i) ?S (called @ [h]) = Some r" by blast
      have eq: "forEach body i S called
            = (if throws (body h) then Some (?S, called @ [h], True) else Some r)"
        using True Some r by (subst forEach.simps) simp
      show ?thesis
      proof (cases "throws (body h)")
        case True
        with eq have "forEach body i S called = Some (?S, called @ [h], True)" by simp
        then show ?thesis ..
      next
        case False
        with eq have "forEach body i S called = Some r" by simp
        then show ?thesis ..
      qed
    qed
  qed
qed

lemma forEach_quiet:
  assumes "\<forall>h. body h = Reaction [] False"
  shows "forEach body i S called = Some (S, called @ live (drop i S), False)"
proof (induction "length S - i" arbitrary: i called rule: less_induct)
  case less
  show ?case
  proof (cases "i < length S")
    case False
    then show ?thesis by (subst forEach.simps) simp
  next
    case True
    then have d: "drop i S = S ! i # drop (Suc i) S" by (simp add: Cons_nth_drop_Suc)
    have lt: "length S - Suc i < length S - i" using True by simp
    show ?thesis
    proof (cases "S ! i")
      case None
      then show ?thesis using True d less.hyps[OF lt, of called]
        by (subst forEach.simps) simp
    next
      case (Some h)
      then show ?thesis using True d less.hyps[OF lt, of "called @ [h]"] assms
        by (subst forEach.simps) simp
    qed
  qed
qed

text \<open>A handler that the first callback unsubscribes and that no callback subscribes is
  not called.\<close>

lemma forEach_skips:
  assumes "forEach body 0 (Some a # T) [] = Some r" "a \<noteq> h"
    and "Unsubscribe h \<in> set (registry_ops (body a))"
    and "\<forall>g. Subscribe h \<notin> set (registry_ops (body g))"
  shows "h \<notin> set (fst (snd r))"
proof (cases "throws (body a)")
  case True
  with assms(1) have "fst (snd r) = [a]" by (subst (asm) forEach.simps) auto
  with assms(2) show ?thesis by simp
next
  case False
  let ?S = "fold apply_registry_op (registry_ops (body a)) (Some a # T)"
  from False assms(1) have run: "forEach body (Suc 0) ?S [a] = Some r"
    by (subst (asm) forEach.simps) simp
  have "\<not> set_has h ?S" using assms(3,4) by (intro fold_ops_removes) auto
  then have "Some h \<notin> set (drop (Suc 0) ?S)"
    using set_drop_subset[of "Suc 0" ?S] by (auto simp: set_has_def)
  with forEach_sound[OF run, of h] assms(2,4) show ?thesis by auto
qed

text \<open>The passes of the provider, in terms of \<^const>\<open>forEach\<close>.\<close>

lemma notifyConnectionHandlers_Some:
  assumes "notifyConnectionHandlers body up s = Some (thrown, s')"
  obtains S called where "forEach body 0 (connectionHandlers s) [] = Some (S, called, thrown)"
    and "s' = s\<lparr>connectionHandlers := S,
                  connectionCalls := connectionCalls s @ map (\<lambda>h. (h, up)) called\<rparr>"
  using assms by (auto simp: notifyConnectionHandlers_def split: option.splits)

lemma notifyMessageHandlers_Some:
  assumes "notifyMessageHandlers body data s = Some (thrown, s')"
  obtains S called where "forEach body 0 (messageHandlers s) [] = Some (S, called, thrown)"
    and "s' = s\<lparr>messageHandlers := S,
                  messageCalls := messageCalls s @ map (\<lambda>h. (h, data)) called\<rparr>"
  using assms by (auto simp: notifyMessageHandlers_def split: option.splits)

lemma notifyConnectionHandlers_quiet:
  assumes "\<forall>h. body h = Reaction [] False"
  shows "notifyConnectionHandlers body up s
         = Some (False, s\<lparr>connectionCalls :=
                            connectionCalls s @ map (\<lambda>h. (h, up)) (live (connectionHandlers s))\<rparr>)"
  by (simp add: notifyConnectionHandlers_def forEach_quiet[OF assms])

lemma notifyMessageHandlers_quiet:
  assumes "\<forall>h. body h = Reaction [] False"
  shows "notifyMessageHandlers body data s
         = Some (False, s\<lparr>messageCalls :=
                            messageCalls s @ map (\<lambda>h. (h, data)) (live (messageHandlers s))\<rparr>)"
  by (simp add: notifyMessageHandlers_def forEach_quiet[OF assms])

lemma quiet_all: "\<forall>h. quiet h = Reaction [] False"
  by (simp add: quiet_def)


lemma ws_onclose_Some:
  assumes "ws_onclose body code s = Some (thrown, s')"
  obtains S called where "forEach body 0 (connectionHandlers s) [] = Some (S, called, thrown)"
    and "thrown \<Longrightarrow>
           s' = s\<lparr>isConnected := False, isConnecting := False, wsRef := None,
                  connectionHandlers := S,
                  connectionCalls := connectionCalls s @ map (\<lambda>h. (h, False)) called\<rparr>"
    and "\<not> thrown \<Longrightarrow>
           s' = reject_and_reconnect
                  (s\<lparr>isConnected := False, isConnecting := False, wsRef := None,
                     connectionHandlers := S,
                     connectionCalls := connectionCalls s @ map (\<lambda>h. (h, False)) called\<rparr>)"
proof -
  let ?s1 = "s\<lparr>isConnected := False, isConnecting := False, wsRef := None\<rparr>"
  from assms obtain s2 where n: "notifyConnectionHandlers body False ?s1 = Some (thrown, s2)"
    and s': "s' = (if thrown then s2 else reject_and_reconnect s2)"
    by (auto simp: ws_onclose_def Let_def split: option.splits if_splits)
  from n obtain S called where
    f: "forEach body 0 (connectionHandlers ?s1) [] = Some (S, called, thrown)"
    and s2: "s2 = ?s1\<lparr>connectionHandlers := S,
                        connectionCalls := connectionCalls ?s1 @ map (\<lambda>h. (h, False)) called\<rparr>"
    by (rule notifyConnectionHandlers_Some)
  show ?thesis
    by (rule that[of S called]) (use f s' s2 in simp_all)
qed


section \<open>Sending while not connected\<close>

text \<open>
  C5. A call of \<^verbatim>\<open>sendRequest\<close> while there is no socket or the socket is not \<^verbatim>\<open>OPEN\<close> creates
  the promise and rejects it at once with \<^verbatim>\<open>Error('WebSocket not connected')\<close>, and does
  nothing else: no draw from the random source (no identifier), no entry in the pending
  table, no timer, nothing sent.
\<close>

theorem sendRequest_not_connected:
  assumes "\<not> ws_open s"
  shows "sendRequest rand action params send_error s =
           s\<lparr>promiseCount := Suc (promiseCount s),
             settled := settled s
                        @ [(promiseCount s, Rejected (NewError ''WebSocket not connected''))]\<rparr>
         \<and> pendingRequests (sendRequest rand action params send_error s) = pendingRequests s
         \<and> randomCalls (sendRequest rand action params send_error s) = randomCalls s
         \<and> timers (sendRequest rand action params send_error s) = timers s
         \<and> sent (sendRequest rand action params send_error s) = sent s"
  by (simp add: sendRequest_not_open[OF assms])

theorem sendRequest_not_connected_witness:
  "\<not> ws_open init
   \<and> settled (sendRequest zeros ''ping'' [] None init)
       = [(0, Rejected (NewError ''WebSocket not connected''))]
   \<and> pendingRequests (sendRequest zeros ''ping'' [] None init) = []
   \<and> randomCalls (sendRequest zeros ''ping'' [] None init) = 0"
  using sendRequest_not_connected[of init zeros "''ping''" "[]" None]
  by (simp add: ws_open_def init_def)

section \<open>Calling connect again\<close>

text \<open>With an open socket \<^verbatim>\<open>connect\<close> returns at its first test and changes nothing.\<close>

lemma connect_open: "ws_open s \<Longrightarrow> connect ctor_ok ip port s = s"
  by (simp add: connect_def connect_closure_def)

text \<open>A function that saw \<^verbatim>\<open>isConnecting = true\<close> would return at its second test.\<close>

lemma connect_closure_seen: "connect_closure True ctor_ok ip port s = s"
  by (simp add: connect_closure_def)

text \<open>
  C4. The test \<^verbatim>\<open>if (isConnecting) return\<close> reads the value of the first render, which is
  \<^verbatim>\<open>false\<close>. In the state after one call of \<^verbatim>\<open>connect\<close> (socket 0 connecting,
  \<^verbatim>\<open>isConnecting\<close> set) a second call does not return early: it takes the handlers off
  socket 0, closes it and opens socket 1.
\<close>

theorem connect_while_connecting_reopens:
  "isConnecting connecting_state
   \<and> wsRef connecting_state = Some 0
   \<and> readyState (sockets connecting_state 0) = CONNECTING
   \<and> socketCount connecting_state = 1
   \<and> socketCount (connect True ''192.168.0.56'' ''8081'' connecting_state) = 2
   \<and> wsRef (connect True ''192.168.0.56'' ''8081'' connecting_state) = Some 1
   \<and> readyState (sockets (connect True ''192.168.0.56'' ''8081'' connecting_state) 0) = CLOSING
   \<and> \<not> onopen (sockets (connect True ''192.168.0.56'' ''8081'' connecting_state) 0)
   \<and> readyState (sockets (connect True ''192.168.0.56'' ''8081'' connecting_state) 1) = CONNECTING
   \<and> connect True ''192.168.0.56'' ''8081'' connecting_state \<noteq> connecting_state"
proof -
  let ?s = "connect True ''192.168.0.56'' ''8081'' connecting_state"
  have a: "socketCount ?s = 2" "wsRef ?s = Some 1" "readyState (sockets ?s 0) = CLOSING"
    "\<not> onopen (sockets ?s 0)" "readyState (sockets ?s 1) = CONNECTING"
    by (simp_all add: connect_def connect_closure_def ws_open_def connecting_state_simps
        clear_reconnect_def Let_def ws_close_def)
  have "wsRef ?s \<noteq> wsRef connecting_state" by (simp add: a connecting_state_simps)
  then have "?s \<noteq> connecting_state" by auto
  then show ?thesis using a by (simp add: connecting_state_simps)
qed

section \<open>The example states\<close>


lemma one_pending_simps:
  "wsRef one_pending = Some 0" "readyState (sockets one_pending 0) = OPEN"
  "pendingRequests one_pending
     = [(''00000000-0000-4000-8000-000000000000'', \<lparr>promise = 0, timeout = 1\<rparr>)]"
  "promiseCount one_pending = 1" "timerCount one_pending = 2" "settled one_pending = []"
  "timers one_pending
     = [1 \<mapsto> (RequestTimeoutCb ''00000000-0000-4000-8000-000000000000'' 0, 30000)]"
  by (simp_all add: one_pending_def one_pending_trace_def connect_def connect_closure_def
      ws_open_def init_def clear_reconnect_def Let_def transport_open_def ws_onopen_def
      notifyConnectionHandlers_quiet[OF quiet_all] sendRequest_def setTimeout_def zero_id)

lemma spread_ids:
  "generateRequestId spread 0 = ''00000000-0000-4000-8000-000000000000''"
  "generateRequestId spread 31 = ''11111111-1111-4111-9111-111111111111''"
  "generateRequestId spread 62 = ''22222222-2222-4222-a222-222222222222''"
  by (simp_all add: spread_def generateRequestId_def id_template_def id_digit_def to_int32_def
      toString16_def hex_of_nat.simps hex_digit_def)

lemma three_pending_simps:
  "wsRef three_pending = Some 0" "readyState (sockets three_pending 0) = OPEN"
  "onclose (sockets three_pending 0)" "onmessage (sockets three_pending 0)"
  "pendingRequests three_pending
     = [(''00000000-0000-4000-8000-000000000000'', \<lparr>promise = 0, timeout = 1\<rparr>),
        (''11111111-1111-4111-9111-111111111111'', \<lparr>promise = 1, timeout = 2\<rparr>),
        (''22222222-2222-4222-a222-222222222222'', \<lparr>promise = 2, timeout = 3\<rparr>)]"
  "settled three_pending = []"
  "connectionHandlers three_pending = [Some 1, Some 2]"
  "messageHandlers three_pending = [Some 7, Some 8, Some 9]"
  "connectionCalls three_pending = [(1, True), (2, True)]"
  "messageCalls three_pending = []"
  "reconnectAttempts three_pending = 0"
  "reconnectTimeoutRef three_pending = None"
  "timerCount three_pending = 4"
  by (simp_all add: three_pending_def three_pending_trace_def connect_def connect_closure_def
      ws_open_def init_def clear_reconnect_def Let_def transport_open_def ws_onopen_def
      notifyConnectionHandlers_quiet[OF quiet_all] sendRequest_def setTimeout_def spread_ids
      id_draws_31 addConnectionHandler_def addMessageHandler_def set_add_def set_has_def)


section \<open>When the transport closes\<close>

lemma transport_close_attached:
  assumes "onclose (sockets s i)" "readyState (sockets s i) \<noteq> CLOSED"
  shows "transport_close i code body s
         = ws_onclose body code
             (s\<lparr>sockets := (sockets s)(i := (sockets s i)\<lparr>readyState := CLOSED\<rparr>)\<rparr>)"
  using assms by (simp add: transport_close_def Let_def)

text \<open>A pass from the first entry that ends without an exception has called every handler
  that was in the set when it began and that no callback of the pass unsubscribed.\<close>

lemma pass_calls_registered:
  assumes "forEach body 0 S [] = Some (S', called, False)" "set_has h S"
    and "\<forall>g \<in> set called. Unsubscribe h \<notin> set (registry_ops (body g))"
  shows "h \<in> set called"
proof -
  from forEach_keeps[OF assms(1,2)] assms(3) have "set_has h S'" by simp
  with forEach_complete[OF assms(1)] show ?thesis by simp
qed

lemma pass_not_thrown:
  assumes "forEach body i S called = Some (S', called', thrown)" "never_throws body"
  shows "\<not> thrown"
  using forEach_thrown[OF assms(1)] assms(2) by (auto simp: never_throws_def)

lemma pass_returns:
  assumes "never_subscribes body"
  shows "\<exists>S' called' thrown. forEach body i S called = Some (S', called', thrown)"
proof -
  from assms have "\<forall>h. \<forall>op \<in> set (registry_ops (body h)). \<exists>g. op = Unsubscribe g"
    by (simp add: never_subscribes_def)
  from forEach_returns[OF this, of i S called] obtain r where "forEach body i S called = Some r" ..
  then show ?thesis by (cases r) auto
qed




lemma onclose_not_thrown:
  assumes "ws_onclose body code s = Some (thrown, s')" "never_throws body"
  shows "\<not> thrown"
proof -
  from assms(1) obtain S called where
    "forEach body 0 (connectionHandlers s) [] = Some (S, called, thrown)"
    by (rule ws_onclose_Some)
  from pass_not_thrown[OF this assms(2)] show ?thesis .
qed




section \<open>Inbound frames\<close>

lemma onmessage_not_null:
  assumes "data \<noteq> JNull"
  shows "\<exists>rid. get_property data ''request_id'' = Normal rid"
  using assms by (cases data) auto

text \<open>The ways \<^verbatim>\<open>ws.onmessage\<close> returns: the frame is dropped (it does not parse, or reading
  \<^verbatim>\<open>request_id\<close> throws); it answers no pending request; it answers one.\<close>

lemma ws_onmessage_cases:
  assumes "ws_onmessage body parsed s = Some s'"
  obtains (dropped) "s' = s"
        "parsed = None \<or> (\<exists>data. parsed = Some data \<and> get_property data ''request_id'' = Throws)"
    | (unmatched) data rid S called thrown where
        "parsed = Some data" "get_property data ''request_id'' = Normal rid"
        "matching_request rid s = None"
        "forEach body 0 (messageHandlers s) [] = Some (S, called, thrown)"
        "s' = s\<lparr>messageHandlers := S,
                 messageCalls := messageCalls s @ map (\<lambda>h. (h, data)) called\<rparr>"
    | (matched) data rid k pending S called thrown where
        "parsed = Some data" "get_property data ''request_id'' = Normal rid"
        "matching_request rid s = Some (k, pending)"
        "forEach body 0 (messageHandlers s) [] = Some (S, called, thrown)"
        "s' = s\<lparr>timers := (timers s)(timeout pending := None),
                 pendingRequests := AList.delete k (pendingRequests s),
                 settled := settled s @ [(promise pending, Resolved data)],
                 messageHandlers := S,
                 messageCalls := messageCalls s @ map (\<lambda>h. (h, data)) called\<rparr>"
proof (cases parsed)
  case None
  with assms have e: "s' = s" by (simp add: ws_onmessage_def)
  show ?thesis by (rule dropped[OF e]) (simp add: None)
next
  case (Some data)
  show ?thesis
  proof (cases "get_property data ''request_id''")
    case Throws
    with assms Some have e: "s' = s" by (simp add: ws_onmessage_def)
    show ?thesis by (rule dropped[OF e]) (simp add: Some Throws)
  next
    case (Normal rid)
    show ?thesis
    proof (cases "matching_request rid s")
      case None
      with assms Some Normal obtain thrown
        where "notifyMessageHandlers body data s = Some (thrown, s')"
        by (auto simp: ws_onmessage_def split: option.splits)
      then obtain S called where
        "forEach body 0 (messageHandlers s) [] = Some (S, called, thrown)"
        "s' = s\<lparr>messageHandlers := S,
                 messageCalls := messageCalls s @ map (\<lambda>h. (h, data)) called\<rparr>"
        by (rule notifyMessageHandlers_Some)
      then show ?thesis using Some Normal None by (intro unmatched)
    next
      case (Some a)
      obtain k pending where a: "a = (k, pending)" by (cases a)
      let ?s1 = "settle (promise pending) (Resolved data)
                   ((clearTimeout (timeout pending) s)
                      \<lparr>pendingRequests := AList.delete k (pendingRequests s)\<rparr>)"
      from assms \<open>parsed = Some data\<close> Normal Some a obtain thrown
        where "notifyMessageHandlers body data ?s1 = Some (thrown, s')"
        by (auto simp: ws_onmessage_def split: option.splits)
      then obtain S called where
        f: "forEach body 0 (messageHandlers ?s1) [] = Some (S, called, thrown)"
        and s': "s' = ?s1\<lparr>messageHandlers := S,
                  messageCalls := messageCalls ?s1 @ map (\<lambda>h. (h, data)) called\<rparr>"
        by (rule notifyMessageHandlers_Some)
      from f have f': "forEach body 0 (messageHandlers s) [] = Some (S, called, thrown)"
        by (simp add: settle_def clearTimeout_def)
      from s' have s'': "s' = s\<lparr>timers := (timers s)(timeout pending := None),
                 pendingRequests := AList.delete k (pendingRequests s),
                 settled := settled s @ [(promise pending, Resolved data)],
                 messageHandlers := S,
                 messageCalls := messageCalls s @ map (\<lambda>h. (h, data)) called\<rparr>"
        by (simp add: settle_def clearTimeout_def)
      show ?thesis
        using \<open>parsed = Some data\<close> Normal Some[unfolded a] f' s'' by (rule matched)
    qed
  qed
qed

lemma onmessage_calls:
  assumes "data \<noteq> JNull" "ws_onmessage body (Some data) s = Some s'"
  shows "\<exists>S called thrown. forEach body 0 (messageHandlers s) [] = Some (S, called, thrown)
           \<and> messageCalls s' = messageCalls s @ map (\<lambda>h. (h, data)) called"
  using assms(2)
proof (cases rule: ws_onmessage_cases)
  case dropped
  with onmessage_not_null[OF assms(1)] show ?thesis by auto
next
  case (unmatched data' rid S called thrown)
  then show ?thesis by auto
next
  case (matched data' rid k pending S called thrown)
  then show ?thesis by auto
qed

lemma onmessage_returns:
  assumes "never_subscribes body"
  shows "\<exists>s'. ws_onmessage body parsed s = Some s'"
proof -
  have "\<exists>r. notifyMessageHandlers body data s1 = Some r" for data s1
    using pass_returns[OF assms, of 0 "messageHandlers s1" "[]"]
    by (auto simp: notifyMessageHandlers_def)
  then have n: "notifyMessageHandlers body data s1 \<noteq> None" for data s1 by simp
  show ?thesis
    by (auto simp: ws_onmessage_def Let_def n split: option.splits completion.splits)
qed

lemma no_answer_no_match:
  assumes "\<not> answers_pending data s" "get_property data ''request_id'' = Normal rid"
  shows "matching_request rid s = None"
proof (cases "key_of rid")
  case None
  then show ?thesis by (simp add: matching_request_def)
next
  case (Some k)
  then have "rid = Some (JStr k)" by (cases rid rule: key_of.cases) auto
  with assms have "\<not> Map_has k (pendingRequests s)" by (simp add: answers_pending_def)
  then have "map_of (pendingRequests s) k = None"
    by (simp add: Map_has_def map_of_eq_None_iff)
  then show ?thesis using Some by (simp add: matching_request_def)
qed

lemma onmessage_unmatched:
  assumes "\<not> answers_pending data s" "ws_onmessage body (Some data) s = Some s'"
  shows "pendingRequests s' = pendingRequests s \<and> timers s' = timers s \<and> settled s' = settled s"
  using assms(2)
proof (cases rule: ws_onmessage_cases)
  case dropped
  then show ?thesis by simp
next
  case (unmatched data' rid S called thrown)
  then show ?thesis by simp
next
  case (matched data' rid k pending S called thrown)
  with no_answer_no_match[OF assms(1), of rid] show ?thesis by simp
qed

text \<open>
  C6 (as amended). Every frame that \<^verbatim>\<open>JSON.parse\<close> accepts and that is not the value
  \<^verbatim>\<open>null\<close> is passed to the message observers in one pass over the live registry, whether
  or not it answers a pending request: the calls made are calls with this frame, and
  provided no observer called throws, every handler that was in the set when the pass
  began has been called, unless a callback of the pass unsubscribed it. With observers
  that leave the registry alone and return, the handler returns and has called the
  handlers of the set, in insertion order. The handler returns whenever no observer
  subscribes a handler during the pass; an exception of an observer is caught. For a
  frame (\<^verbatim>\<open>null\<close> included) whose \<^verbatim>\<open>request_id\<close> is not a key of the pending table, the
  handler leaves the table, the timers and the promises as they were.
\<close>

theorem onmessage_fan_out:
  "(data \<noteq> JNull \<and> ws_onmessage body (Some data) s = Some s' \<longrightarrow>
      (\<exists>called. messageCalls s' = messageCalls s @ map (\<lambda>h. (h, data)) called
         \<and> ((\<forall>g \<in> set called. \<not> throws (body g)) \<longrightarrow>
              (\<forall>h. set_has h (messageHandlers s)
                    \<and> (\<forall>g \<in> set called. Unsubscribe h \<notin> set (registry_ops (body g)))
                  \<longrightarrow> h \<in> set called))))
   \<and> (data \<noteq> JNull \<and> (\<forall>h. body h = Reaction [] False) \<longrightarrow>
        (\<exists>sa. ws_onmessage body (Some data) s = Some sa
           \<and> messageCalls sa = messageCalls s @ map (\<lambda>h. (h, data)) (live (messageHandlers s))))
   \<and> (never_subscribes body \<longrightarrow> (\<exists>sa. ws_onmessage body parsed s = Some sa))
   \<and> (\<not> answers_pending data s \<and> ws_onmessage body (Some data) s = Some s' \<longrightarrow>
        pendingRequests s' = pendingRequests s
      \<and> timers s' = timers s
      \<and> settled s' = settled s)"
proof -
  have 1: "\<exists>called. messageCalls s' = messageCalls s @ map (\<lambda>h. (h, data)) called
         \<and> ((\<forall>g \<in> set called. \<not> throws (body g)) \<longrightarrow>
              (\<forall>h. set_has h (messageHandlers s)
                    \<and> (\<forall>g \<in> set called. Unsubscribe h \<notin> set (registry_ops (body g)))
                  \<longrightarrow> h \<in> set called))"
    if a: "data \<noteq> JNull" "ws_onmessage body (Some data) s = Some s'"
  proof -
    from onmessage_calls[OF a] obtain S called thrown where
      f: "forEach body 0 (messageHandlers s) [] = Some (S, called, thrown)"
      and c: "messageCalls s' = messageCalls s @ map (\<lambda>h. (h, data)) called" by blast
    have "\<forall>h. set_has h (messageHandlers s)
                    \<and> (\<forall>g \<in> set called. Unsubscribe h \<notin> set (registry_ops (body g)))
                  \<longrightarrow> h \<in> set called"
      if nt: "\<forall>g \<in> set called. \<not> throws (body g)"
    proof -
      from forEach_thrown[OF f] nt have "\<not> thrown" by auto
      with f have "forEach body 0 (messageHandlers s) [] = Some (S, called, False)" by simp
      from pass_calls_registered[OF this] show ?thesis by blast
    qed
    with c show ?thesis by blast
  qed
  have 2: "\<exists>sa. ws_onmessage body (Some data) s = Some sa
           \<and> messageCalls sa = messageCalls s @ map (\<lambda>h. (h, data)) (live (messageHandlers s))"
    if a: "data \<noteq> JNull" "\<forall>h. body h = Reaction [] False"
  proof -
    from onmessage_not_null[OF a(1)] obtain rid
      where "get_property data ''request_id'' = Normal rid" ..
    then show ?thesis
      by (simp add: ws_onmessage_def Let_def notifyMessageHandlers_quiet[OF a(2)]
          settle_def clearTimeout_def split: option.splits prod.splits)
  qed
  show ?thesis
    using 1 2 onmessage_returns[of body parsed s] onmessage_unmatched[of data s body s']
    by blast
qed

theorem onmessage_fan_out_witness:
  "JObj [(''request_id'', JStr ''stale''), (''success'', JBool True)] \<noteq> JNull
   \<and> \<not> answers_pending (JObj [(''request_id'', JStr ''stale''), (''success'', JBool True)]) three_pending
   \<and> (\<forall>h. quiet h = Reaction [] False) \<and> never_subscribes quiet
   \<and> live (messageHandlers three_pending) = [7, 8, 9]
   \<and> map_option messageCalls
        (ws_onmessage quiet (Some (JObj [(''request_id'', JStr ''stale''), (''success'', JBool True)])) three_pending)
       = Some [(7, JObj [(''request_id'', JStr ''stale''), (''success'', JBool True)]),
               (8, JObj [(''request_id'', JStr ''stale''), (''success'', JBool True)]),
               (9, JObj [(''request_id'', JStr ''stale''), (''success'', JBool True)])]
   \<and> map_option pendingRequests
        (ws_onmessage quiet (Some (JObj [(''request_id'', JStr ''stale''), (''success'', JBool True)])) three_pending)
       = Some (pendingRequests three_pending)"
proof -
  let ?d = "JObj [(''request_id'', JStr ''stale''), (''success'', JBool True)]"
  let ?s' = "three_pending\<lparr>messageCalls := messageCalls three_pending
                 @ map (\<lambda>h. (h, ?d)) (live (messageHandlers three_pending))\<rparr>"
  have na: "\<not> answers_pending ?d three_pending"
    by (simp add: answers_pending_def Map_has_def three_pending_simps)
  have m: "matching_request (Some (JStr ''stale'')) three_pending = None"
    by (rule no_answer_no_match[OF na]) simp
  have r: "ws_onmessage quiet (Some ?d) three_pending = Some ?s'"
    by (simp add: ws_onmessage_def m notifyMessageHandlers_quiet[OF quiet_all])
  have q: "never_subscribes quiet" by (simp add: never_subscribes_def quiet_def)
  show ?thesis
    using onmessage_fan_out[where data = ?d and body = quiet and s = three_pending and s' = ?s'
        and parsed = "Some ?d"] r na q
    by (simp add: three_pending_simps quiet_def)
qed

text \<open>
  The claim as stated fails three times. For the frame \<^verbatim>\<open>null\<close>: \<^verbatim>\<open>JSON.parse\<close> accepts
  it, reading \<^verbatim>\<open>data.request_id\<close> throws, the \<^verbatim>\<open>catch\<close> logs, and no registered message
  observer is called. When an observer throws: of the observers 7, 8, 9, with observer 8
  throwing, observer 9 is not called. And when a callback unsubscribes an observer that
  the pass has not reached: with observer 7 unsubscribing observer 8, observer 8 is not
  called.
\<close>

theorem onmessage_null_frame_dropped:
  "live (messageHandlers three_pending) = [7, 8, 9]
   \<and> map_option messageCalls (ws_onmessage quiet (Some JNull) three_pending) = Some []
   \<and> map_option messageCalls (transport_message 0 (Some JNull) quiet three_pending) = Some []
   \<and> map_option messageCalls (ws_onmessage eighth_throws (Some (JStr ''event'')) three_pending)
       = Some [(7, JStr ''event''), (8, JStr ''event'')]
   \<and> map_option messageCalls
        (ws_onmessage seventh_removes_eighth (Some (JStr ''event'')) three_pending)
       = Some [(7, JStr ''event''), (9, JStr ''event'')]"
  by (simp add: three_pending_simps ws_onmessage_def transport_message_def matching_request_def
      notifyMessageHandlers_def forEach.simps eighth_throws_def seventh_removes_eighth_def
      set_delete_def)

section \<open>A send that throws\<close>

lemma sendRequest_open_throws:
  assumes "wsRef s = Some i" "readyState (sockets s i) = OPEN"
  shows "sendRequest rand action params (Some e) s =
     s\<lparr>promiseCount := Suc (promiseCount s),
       randomCalls := randomCalls s + id_draws,
       timers := (timers s)(timerCount s := None),
       timerCount := Suc (timerCount s),
       pendingRequests := AList.delete (generateRequestId rand (randomCalls s)) (pendingRequests s),
       issued := issued s @ [(promiseCount s, generateRequestId rand (randomCalls s))],
       settled := settled s @ [(promiseCount s, Rejected (Caught e))]\<rparr>"
  using assms
  by (simp add: sendRequest_def Let_def setTimeout_def clearTimeout_def settle_def
      AList.delete_update_same)

text \<open>
  C10 (as amended). When the \<^verbatim>\<open>try\<close> block of \<^verbatim>\<open>sendRequest\<close> throws, the entry just put
  into the pending table under the generated identifier is removed (no entry is left under
  that identifier), the timer just armed is cancelled, the promise is rejected with the
  exception caught, and nothing is recorded as sent. The pending table is the table before
  the call provided the identifier generated was not a key of the table.
\<close>

theorem sendRequest_send_throws:
  assumes "ws_open s"
  shows "\<not> Map_has (generateRequestId rand (randomCalls s))
             (pendingRequests (sendRequest rand action params (Some e) s))
       \<and> pendingRequests (sendRequest rand action params (Some e) s)
           = AList.delete (generateRequestId rand (randomCalls s)) (pendingRequests s)
       \<and> timers (sendRequest rand action params (Some e) s) (timerCount s) = None
       \<and> timers (sendRequest rand action params (Some e) s) = (timers s)(timerCount s := None)
       \<and> settled (sendRequest rand action params (Some e) s)
           = settled s @ [(promiseCount s, Rejected (Caught e))]
       \<and> sent (sendRequest rand action params (Some e) s) = sent s
       \<and> (\<not> Map_has (generateRequestId rand (randomCalls s)) (pendingRequests s) \<longrightarrow>
            pendingRequests (sendRequest rand action params (Some e) s) = pendingRequests s)"
proof -
  from assms(1) obtain i where i: "wsRef s = Some i" "readyState (sockets s i) = OPEN"
    by (auto simp: ws_open_def split: option.splits)
  have "AList.delete (generateRequestId rand (randomCalls s)) (pendingRequests s)
             = pendingRequests s"
    if "\<not> Map_has (generateRequestId rand (randomCalls s)) (pendingRequests s)"
    using that by (intro AList.delete_id) (simp add: Map_has_def)
  moreover have "\<not> Map_has (generateRequestId rand (randomCalls s))
       (AList.delete (generateRequestId rand (randomCalls s)) (pendingRequests s))"
    using AList.delete_notin_dom[of "generateRequestId rand (randomCalls s)" "pendingRequests s"]
    by (simp add: Map_has_def)
  ultimately show ?thesis by (simp add: sendRequest_open_throws[OF i])
qed

theorem sendRequest_send_throws_witness:
  "ws_open one_pending
   \<and> \<not> Map_has (generateRequestId halves (randomCalls one_pending)) (pendingRequests one_pending)
   \<and> pendingRequests (sendRequest halves ''ping'' [] (Some ''boom'') one_pending)
       = pendingRequests one_pending
   \<and> timers (sendRequest halves ''ping'' [] (Some ''boom'') one_pending) 2 = None
   \<and> settled (sendRequest halves ''ping'' [] (Some ''boom'') one_pending)
       = [(1, Rejected (Caught ''boom''))]"
proof -
  have a: "ws_open one_pending" by (simp add: ws_open_def one_pending_simps)
  have g: "generateRequestId halves i = ''88888888-8888-4888-8888-888888888888''" for i
    by (simp add: halves_def generateRequestId_def id_template_def id_digit_def to_int32_def
      toString16_def hex_of_nat.simps hex_digit_def)
  have b: "\<not> Map_has (generateRequestId halves (randomCalls one_pending)) (pendingRequests one_pending)"
    by (simp add: g Map_has_def one_pending_simps)
  note t = sendRequest_send_throws[OF a, of halves "''ping''" "[]" "''boom''"]
  from t b have p: "pendingRequests (sendRequest halves ''ping'' [] (Some ''boom'') one_pending)
       = pendingRequests one_pending" by blast
  from t have tm: "timers (sendRequest halves ''ping'' [] (Some ''boom'') one_pending)
       (timerCount one_pending) = None" by blast
  from t have st: "settled (sendRequest halves ''ping'' [] (Some ''boom'') one_pending)
       = settled one_pending @ [(promiseCount one_pending, Rejected (Caught ''boom''))]" by blast
  show ?thesis
    using a b p tm st by (simp add: one_pending_simps)
qed

text \<open>
  Without the proviso the last part of the claim fails: when the generated identifier is
  the key of an outstanding request, \<^verbatim>\<open>set\<close> replaces that entry and the \<^verbatim>\<open>delete\<close> of the
  \<^verbatim>\<open>catch\<close> removes it, so the table after the call has lost the earlier request.
\<close>

theorem sendRequest_send_throws_collision:
  "ws_open one_pending
   \<and> pendingRequests one_pending
       = [(''00000000-0000-4000-8000-000000000000'', \<lparr>promise = 0, timeout = 1\<rparr>)]
   \<and> pendingRequests (sendRequest zeros ''ping'' [] (Some ''boom'') one_pending) = []
   \<and> pendingRequests (sendRequest zeros ''ping'' [] (Some ''boom'') one_pending)
       \<noteq> pendingRequests one_pending"
proof -
  have a: "ws_open one_pending" by (simp add: ws_open_def one_pending_simps)
  have "pendingRequests (sendRequest zeros ''ping'' [] (Some ''boom'') one_pending) = []"
    by (simp add: sendRequest_open_throws[OF one_pending_simps(1,2)] zero_id one_pending_simps)
  then show ?thesis using a by (simp add: one_pending_simps)
qed

section \<open>The handler registries\<close>

lemma set_has_live: "set_has h S \<longleftrightarrow> h \<in> set (live S)"
  using live_set[of S] by auto

lemma set_add_idem: "set_add h (set_add h S) = set_add h S"
  by (simp add: set_add_def set_has_def)

lemma set_delete_removes: "\<not> set_has h (set_delete h S)"
  by (auto simp: set_has_def set_delete_def)

lemma set_delete_absent: "\<not> set_has h T \<Longrightarrow> set_delete h T = T"
  by (induction T) (auto simp: set_has_def set_delete_def)

lemma drop_set_delete: "drop n (set_delete h S) = set_delete h (drop n S)"
  by (simp add: set_delete_def drop_map)

lemma set_delete_idem: "set_delete h (set_delete h S) = set_delete h S"
  by (simp add: set_delete_def)

lemma fold_self_unsubscribe:
  assumes "set ops \<subseteq> {Unsubscribe h}"
  shows "fold apply_registry_op ops S = S \<or> fold apply_registry_op ops S = set_delete h S"
  using assms
proof (induction ops arbitrary: S)
  case Nil
  then show ?case by simp
next
  case (Cons a ops)
  then have a: "a = Unsubscribe h" and r: "set ops \<subseteq> {Unsubscribe h}" by auto
  from Cons.IH[OF r, of "set_delete h S"] show ?case
    by (auto simp: a set_delete_idem)
qed

lemma forEach_self_unsubscribe:
  assumes "\<forall>h. \<not> throws (body h) \<and> set (registry_ops (body h)) \<subseteq> {Unsubscribe h}"
    and "distinct (live (drop i S))"
  shows "\<exists>S'. forEach body i S called = Some (S', called @ live (drop i S), False)"
  using assms(2)
proof (induction "length S - i" arbitrary: i S called rule: less_induct)
  case less
  show ?case
  proof (cases "i < length S")
    case False
    then show ?thesis by (subst forEach.simps) simp
  next
    case True
    then have d: "drop i S = S ! i # drop (Suc i) S" by (simp add: Cons_nth_drop_Suc)
    show ?thesis
    proof (cases "S ! i")
      case None
      with d have l: "live (drop i S) = live (drop (Suc i) S)" by simp
      with less.prems have dd: "distinct (live (drop (Suc i) S))" by simp
      have lt: "length S - Suc i < length S - i" using True by simp
      from less.hyps[OF lt dd, of called] obtain S' where
        "forEach body (Suc i) S called = Some (S', called @ live (drop (Suc i) S), False)" by blast
      then show ?thesis using True None l by (subst forEach.simps) simp
    next
      case (Some h)
      with d have l: "live (drop i S) = h # live (drop (Suc i) S)" by simp
      with less.prems have nh: "h \<notin> set (live (drop (Suc i) S))"
        and dd: "distinct (live (drop (Suc i) S))" by auto
      define T where "T = fold apply_registry_op (registry_ops (body h)) S"
      from assms(1) have b: "set (registry_ops (body h)) \<subseteq> {Unsubscribe h}" "\<not> throws (body h)"
        by blast+
      from fold_self_unsubscribe[OF b(1), of S] have T: "T = S \<or> T = set_delete h S"
        by (simp add: T_def)
      have "set_delete h (drop (Suc i) S) = drop (Suc i) S"
        using nh by (intro set_delete_absent) (simp add: set_has_live)
      with T have dT: "drop (Suc i) T = drop (Suc i) S" and lT: "length T = length S"
        by (auto simp: drop_set_delete length_set_delete)
      have lt: "length T - Suc i < length S - i" using True lT by simp
      have ddT: "distinct (live (drop (Suc i) T))" using dd dT by simp
      from less.hyps[OF lt ddT, of "called @ [h]"] obtain S' where
        "forEach body (Suc i) T (called @ [h])
           = Some (S', (called @ [h]) @ live (drop (Suc i) S), False)"
        unfolding dT by blast
      then show ?thesis using True Some l b(2) by (subst forEach.simps) (simp add: T_def)
    qed
  qed
qed

text \<open>A pass from the first entry that ends without an exception has called every handler
  that a callback of the pass subscribed and none unsubscribed.\<close>

lemma pass_calls_subscribed:
  assumes "forEach body 0 S [] = Some (S', called, False)" "g' \<in> set called"
    and "Subscribe g \<in> set (registry_ops (body g'))"
    and "\<forall>g' \<in> set called. Unsubscribe g \<notin> set (registry_ops (body g'))"
  shows "g \<in> set called"
proof -
  from forEach_added[OF assms(1), of g' g] assms(2,3,4) have "set_has g S'" by simp
  with forEach_complete[OF assms(1)] show ?thesis by simp
qed

text \<open>
  C8 (as amended). Each registry is a set of handlers compared by identity: adding a handler
  that is already there changes nothing, and one call of an unsubscribe function removes
  the handler however many times it was added. A handler may unsubscribe itself from
  within its own callback: when every callback returns and removes at most its own
  handler, the pass returns and has called every handler of the set once, in insertion
  order. The pass reads the live set, not a snapshot. Every handler it calls was in the
  set when the pass began or was subscribed by a callback of the pass. A handler other
  than the first that the first callback unsubscribes, and that no callback subscribes,
  is not called. And when the pass ends without an exception, it has called every handler
  that was in the set when the pass began or was subscribed by a callback of the pass,
  and that no callback of the pass unsubscribed.
\<close>

theorem registry_semantics:
  "addMessageHandler h (addMessageHandler h s) = addMessageHandler h s
   \<and> addConnectionHandler h (addConnectionHandler h s) = addConnectionHandler h s
   \<and> \<not> set_has h (messageHandlers
          (removeMessageHandler h (addMessageHandler h (addMessageHandler h s))))
   \<and> \<not> set_has h (connectionHandlers
          (removeConnectionHandler h (addConnectionHandler h (addConnectionHandler h s))))
   \<and> ((\<forall>g. \<not> throws (bodyA g) \<and> set (registry_ops (bodyA g)) \<subseteq> {Unsubscribe g})
        \<and> distinct (live SA) \<longrightarrow>
         (\<exists>S'. forEach bodyA 0 SA [] = Some (S', live SA, False)))
   \<and> (forEach bodyB 0 SB [] = Some (SB', calledB, thrownB) \<longrightarrow>
         (\<forall>g \<in> set calledB.
            set_has g SB \<or> (\<exists>g' \<in> set calledB. Subscribe g \<in> set (registry_ops (bodyB g')))))
   \<and> (forEach bodyC 0 (Some a # TC) [] = Some (SC', calledC, thrownC) \<and> a \<noteq> b
        \<and> Unsubscribe b \<in> set (registry_ops (bodyC a))
        \<and> (\<forall>g. Subscribe b \<notin> set (registry_ops (bodyC g))) \<longrightarrow>
         b \<notin> set calledC)
   \<and> (forEach bodyD 0 SD [] = Some (SD', calledD, False) \<longrightarrow>
         (\<forall>g. (set_has g SD \<or> (\<exists>g' \<in> set calledD. Subscribe g \<in> set (registry_ops (bodyD g'))))
               \<and> (\<forall>g' \<in> set calledD. Unsubscribe g \<notin> set (registry_ops (bodyD g')))
             \<longrightarrow> g \<in> set calledD))"
proof -
  have 1: "\<exists>S'. forEach bodyA 0 SA [] = Some (S', live SA, False)"
    if "\<forall>g. \<not> throws (bodyA g) \<and> set (registry_ops (bodyA g)) \<subseteq> {Unsubscribe g}"
      "distinct (live SA)"
    using forEach_self_unsubscribe[of bodyA 0 SA "[]"] that by simp
  have 2: "\<forall>g \<in> set calledB.
            set_has g SB \<or> (\<exists>g' \<in> set calledB. Subscribe g \<in> set (registry_ops (bodyB g')))"
    if f: "forEach bodyB 0 SB [] = Some (SB', calledB, thrownB)"
  proof
    fix g assume "g \<in> set calledB"
    with forEach_sound[OF f, of g]
    show "set_has g SB \<or> (\<exists>g' \<in> set calledB. Subscribe g \<in> set (registry_ops (bodyB g')))"
      by (simp add: set_has_def)
  qed
  have 3: "b \<notin> set calledC"
    if "forEach bodyC 0 (Some a # TC) [] = Some (SC', calledC, thrownC)" "a \<noteq> b"
      "Unsubscribe b \<in> set (registry_ops (bodyC a))"
      "\<forall>g. Subscribe b \<notin> set (registry_ops (bodyC g))"
    using forEach_skips[OF that] by simp
  have 4: "\<forall>g. (set_has g SD \<or> (\<exists>g' \<in> set calledD. Subscribe g \<in> set (registry_ops (bodyD g'))))
               \<and> (\<forall>g' \<in> set calledD. Unsubscribe g \<notin> set (registry_ops (bodyD g')))
             \<longrightarrow> g \<in> set calledD"
    if f: "forEach bodyD 0 SD [] = Some (SD', calledD, False)"
    using pass_calls_registered[OF f] pass_calls_subscribed[OF f] by blast
  have 0: "addMessageHandler h (addMessageHandler h s) = addMessageHandler h s
   \<and> addConnectionHandler h (addConnectionHandler h s) = addConnectionHandler h s
   \<and> \<not> set_has h (messageHandlers
          (removeMessageHandler h (addMessageHandler h (addMessageHandler h s))))
   \<and> \<not> set_has h (connectionHandlers
          (removeConnectionHandler h (addConnectionHandler h (addConnectionHandler h s))))"
    by (simp add: addMessageHandler_def addConnectionHandler_def removeMessageHandler_def
        removeConnectionHandler_def set_add_idem set_delete_removes)
  show ?thesis using 0 1 2 3 4 by blast
qed

theorem registry_semantics_witness:
  "addMessageHandler 7 (addMessageHandler 7 init) = addMessageHandler 7 init
   \<and> live (messageHandlers (removeMessageHandler 7 (addMessageHandler 7 (addMessageHandler 7 init)))) = []
   \<and> (\<forall>g. \<not> throws (unsubscribes_itself g)
           \<and> set (registry_ops (unsubscribes_itself g)) \<subseteq> {Unsubscribe g})
   \<and> distinct (live [Some (1::nat), Some 2, Some 3])
   \<and> (\<exists>S'. forEach unsubscribes_itself 0 [Some 1, Some 2, Some 3] [] = Some (S', [1, 2, 3], False))
   \<and> forEach first_adds_fourth 0 [Some 1] [] = Some ([Some 1, Some 4], [1, 4], False)
   \<and> set_has 1 [Some (1::nat)]
   \<and> Subscribe 4 \<in> set (registry_ops (first_adds_fourth 1))
   \<and> forEach first_removes_second 0 [Some 1, Some 2, Some 3] []
       = Some ([Some 1, None, Some 3], [1, 3], False)
   \<and> Unsubscribe 2 \<in> set (registry_ops (first_removes_second 1))
   \<and> (\<forall>g. Subscribe 2 \<notin> set (registry_ops (first_removes_second g)))
   \<and> (2::nat) \<notin> set [1, 3]
   \<and> Unsubscribe 4 \<notin> set (registry_ops (first_adds_fourth 1))
   \<and> Unsubscribe 4 \<notin> set (registry_ops (first_adds_fourth 4))
   \<and> (4::nat) \<in> set [1, 4]"
proof -
  have a: "forEach first_adds_fourth 0 [Some 1] [] = Some ([Some 1, Some 4], [1, 4], False)"
    by (simp add: forEach.simps first_adds_fourth_def set_add_def set_has_def)
  have r: "forEach first_removes_second 0 [Some 1, Some 2, Some 3] []
       = Some ([Some 1, None, Some 3], [1, 3], False)"
    by (simp add: forEach.simps first_removes_second_def set_delete_def)
  have u: "\<forall>g. \<not> throws (unsubscribes_itself g)
           \<and> set (registry_ops (unsubscribes_itself g)) \<subseteq> {Unsubscribe g}"
    by (simp add: unsubscribes_itself_def)
  show ?thesis
    using registry_semantics[where h = 7 and s = init and bodyA = unsubscribes_itself
        and SA = "[Some 1, Some 2, Some 3]"
        and bodyB = first_adds_fourth and SB = "[Some 1]" and SB' = "[Some 1, Some 4]"
        and calledB = "[1, 4]" and thrownB = False
        and bodyC = first_removes_second and a = 1 and TC = "[Some 2, Some 3]"
        and SC' = "[Some 1, None, Some 3]" and calledC = "[1, 3]" and thrownC = False and b = 2
        and bodyD = first_adds_fourth and SD = "[Some 1]" and SD' = "[Some 1, Some 4]"
        and calledD = "[1, 4]"] a r u
    by (simp add: first_removes_second_def first_adds_fourth_def
        addMessageHandler_def removeMessageHandler_def set_add_def set_has_def set_delete_def
        init_def)
qed

text \<open>
  The claim as stated fails twice. Registered twice and unsubscribed once, handler 7
  is in no registry and a later pass does not call it: the two registrations are not
  independent. And in a pass over handlers 1, 2, 3 in which handler 1 unsubscribes
  handler 2, handler 2 is not called although it was subscribed when the pass began.
\<close>

theorem registry_not_independent_not_snapshot:
  "live (messageHandlers (removeMessageHandler 7 (addMessageHandler 7 (addMessageHandler 7 init)))) = []
   \<and> map_option (messageCalls \<circ> snd)
        (notifyMessageHandlers quiet (JStr ''event'')
           (removeMessageHandler 7 (addMessageHandler 7 (addMessageHandler 7 init)))) = Some []
   \<and> forEach first_removes_second 0 [Some 1, Some 2, Some 3] []
       = Some ([Some 1, None, Some 3], [1, 3], False)"
  by (simp add: forEach.simps set_delete_def first_removes_second_def addMessageHandler_def
      removeMessageHandler_def set_add_def set_has_def init_def notifyMessageHandlers_def
      quiet_def)

text \<open>
  The provisos of the rules above are needed. A handler that a callback unsubscribes
  and subscribes again gets a new entry at the end of the set data and is called: with
  handler 1 doing so to handler 2, the pass over 1, 2, 3 calls 1, 3, 2. And a handler
  that a callback subscribes is not called when a later callback unsubscribes it before
  the pass reaches it: with handler 1 subscribing handler 4 and handler 2 unsubscribing
  it, the pass over 1, 2 calls 1, 2.
\<close>

lemma pass_renewed_and_withdrawn:
  "forEach first_renews_second 0 [Some 1, Some 2, Some 3] []
     = Some ([Some 1, None, Some 3, Some 2], [1, 3, 2], False)"
  "forEach fourth_added_and_removed 0 [Some 1, Some 2] []
     = Some ([Some 1, Some 2, None], [1, 2], False)"
  by (simp_all add: forEach.simps first_renews_second_def fourth_added_and_removed_def
      set_add_def set_has_def set_delete_def)

section \<open>The events of the transport\<close>

text \<open>The ways the events of the transport return, with the state they leave.\<close>

lemma transport_open_cases:
  assumes "transport_open i body s = Some (thrown, s')"
  obtains (ignored) "s' = s" "readyState (sockets s i) \<noteq> CONNECTING"
    | (detached) "readyState (sockets s i) = CONNECTING" "\<not> onopen (sockets s i)"
        "s' = s\<lparr>sockets := (sockets s)(i := (sockets s i)\<lparr>readyState := OPEN\<rparr>)\<rparr>"
    | (opened) S called where
        "readyState (sockets s i) = CONNECTING" "onopen (sockets s i)"
        "forEach body 0 (connectionHandlers s) [] = Some (S, called, thrown)"
        "s' = s\<lparr>sockets := (sockets s)(i := (sockets s i)\<lparr>readyState := OPEN\<rparr>),
                 isConnected := True, isConnecting := False, reconnectAttempts := 0,
                 connectionHandlers := S,
                 connectionCalls := connectionCalls s @ map (\<lambda>h. (h, True)) called\<rparr>"
proof (cases "readyState (sockets s i) = CONNECTING")
  case False
  with assms have "s' = s" by (simp add: transport_open_def)
  then show ?thesis using False by (rule ignored)
next
  case True
  show ?thesis
  proof (cases "onopen (sockets s i)")
    case False
    with assms True
    have "s' = s\<lparr>sockets := (sockets s)(i := (sockets s i)\<lparr>readyState := OPEN\<rparr>)\<rparr>"
      by (simp add: transport_open_def Let_def)
    with True False show ?thesis by (rule detached)
  next
    case o: True
    let ?s1 = "s\<lparr>sockets := (sockets s)(i := (sockets s i)\<lparr>readyState := OPEN\<rparr>),
                  isConnected := True, isConnecting := False, reconnectAttempts := 0\<rparr>"
    from assms True o
    have "notifyConnectionHandlers body True ?s1 = Some (thrown, s')"
      by (auto simp: transport_open_def Let_def ws_onopen_def)
    then obtain S called where
      "forEach body 0 (connectionHandlers ?s1) [] = Some (S, called, thrown)"
      "s' = ?s1\<lparr>connectionHandlers := S,
                  connectionCalls := connectionCalls ?s1 @ map (\<lambda>h. (h, True)) called\<rparr>"
      by (rule notifyConnectionHandlers_Some)
    then have "forEach body 0 (connectionHandlers s) [] = Some (S, called, thrown)"
      "s' = s\<lparr>sockets := (sockets s)(i := (sockets s i)\<lparr>readyState := OPEN\<rparr>),
                 isConnected := True, isConnecting := False, reconnectAttempts := 0,
                 connectionHandlers := S,
                 connectionCalls := connectionCalls s @ map (\<lambda>h. (h, True)) called\<rparr>"
      by simp_all
    with True o show ?thesis by (rule opened)
  qed
qed

lemma transport_close_cases:
  assumes "transport_close i code body s = Some (t, s')"
  obtains (ignored) "s' = s" "readyState (sockets s i) = CLOSED" "\<not> t"
    | (detached) "readyState (sockets s i) \<noteq> CLOSED" "\<not> onclose (sockets s i)" "\<not> t"
        "s' = s\<lparr>sockets := (sockets s)(i := (sockets s i)\<lparr>readyState := CLOSED\<rparr>)\<rparr>"
    | (thrown) S called where "t"
        "readyState (sockets s i) \<noteq> CLOSED" "onclose (sockets s i)"
        "forEach body 0 (connectionHandlers s) [] = Some (S, called, True)"
        "s' = s\<lparr>sockets := (sockets s)(i := (sockets s i)\<lparr>readyState := CLOSED\<rparr>),
                 isConnected := False, isConnecting := False, wsRef := None,
                 connectionHandlers := S,
                 connectionCalls := connectionCalls s @ map (\<lambda>h. (h, False)) called\<rparr>"
    | (returned) S called where "\<not> t"
        "readyState (sockets s i) \<noteq> CLOSED" "onclose (sockets s i)"
        "forEach body 0 (connectionHandlers s) [] = Some (S, called, False)"
        "s' = reject_and_reconnect
               (s\<lparr>sockets := (sockets s)(i := (sockets s i)\<lparr>readyState := CLOSED\<rparr>),
                  isConnected := False, isConnecting := False, wsRef := None,
                  connectionHandlers := S,
                  connectionCalls := connectionCalls s @ map (\<lambda>h. (h, False)) called\<rparr>)"
proof (cases "readyState (sockets s i) = CLOSED")
  case True
  with assms have "s' = s" "\<not> t" by (simp_all add: transport_close_def)
  then show ?thesis using True by (intro ignored)
next
  case False
  show ?thesis
  proof (cases "onclose (sockets s i)")
    case nc: False
    with assms False
    have "s' = s\<lparr>sockets := (sockets s)(i := (sockets s i)\<lparr>readyState := CLOSED\<rparr>)\<rparr>" "\<not> t"
      by (simp_all add: transport_close_def Let_def)
    with False nc show ?thesis by (intro detached)
  next
    case c: True
    let ?s1 = "s\<lparr>sockets := (sockets s)(i := (sockets s i)\<lparr>readyState := CLOSED\<rparr>)\<rparr>"
    from assms have oc: "ws_onclose body code ?s1 = Some (t, s')"
      by (simp add: transport_close_attached[OF c False])
    from oc show ?thesis
    proof (rule ws_onclose_Some)
      fix S called
      assume f: "forEach body 0 (connectionHandlers ?s1) [] = Some (S, called, t)"
        and th: "t \<Longrightarrow>
           s' = ?s1\<lparr>isConnected := False, isConnecting := False, wsRef := None,
                  connectionHandlers := S,
                  connectionCalls := connectionCalls ?s1 @ map (\<lambda>h. (h, False)) called\<rparr>"
        and re: "\<not> t \<Longrightarrow>
           s' = reject_and_reconnect
                  (?s1\<lparr>isConnected := False, isConnecting := False, wsRef := None,
                     connectionHandlers := S,
                     connectionCalls := connectionCalls ?s1 @ map (\<lambda>h. (h, False)) called\<rparr>)"
      show ?thesis
      proof (cases t)
        case True
        show ?thesis
          by (rule thrown[OF True False c, of S called]) (use f th True in simp_all)
      next
        case nt: False
        show ?thesis
          by (rule returned[OF nt False c, of S called]) (use f re nt in simp_all)
      qed
    qed
  qed
qed

lemma transport_message_cases:
  assumes "transport_message i parsed body s = Some s'"
  obtains (ignored) "s' = s" | (delivered) "ws_onmessage body parsed s = Some s'"
proof (cases "(readyState (sockets s i) = OPEN \<or> readyState (sockets s i) = CLOSING)
              \<and> onmessage (sockets s i)")
  case True
  with assms have "ws_onmessage body parsed s = Some s'" by (simp add: transport_message_def)
  then show ?thesis by (rule delivered)
next
  case False
  with assms have "s' = s" by (simp add: transport_message_def)
  then show ?thesis by (rule ignored)
qed

section \<open>Sockets and the reconnect timer in reachable states\<close>















section \<open>A disconnected provider stays disconnected\<close>














section \<open>Disconnect\<close>







section \<open>Reconnecting with backoff\<close>







lemma transport_close_returns:
  assumes "never_subscribes body"
  shows "\<exists>r. transport_close i code body s = Some r"
proof -
  let ?s1 = "s\<lparr>sockets := (sockets s)(i := (sockets s i)\<lparr>readyState := CLOSED\<rparr>)\<rparr>"
  have "\<exists>r. ws_onclose body code ?s1 = Some r"
    using pass_returns[OF assms, of 0 "connectionHandlers ?s1" "[]"]
    by (auto simp: ws_onclose_def Let_def notifyConnectionHandlers_def)
  then obtain r where r: "ws_onclose body code ?s1 = Some r" ..
  have "transport_close i code body s
        = Some (if readyState (sockets s i) \<noteq> CLOSED
                then (if onclose (sockets s i) then r else (False, ?s1)) else (False, s))"
    by (simp add: transport_close_def Let_def r)
  then show ?thesis ..
qed















section \<open>Events that return\<close>

text \<open>An event returns when no observer subscribes a handler during its pass, whether or
  not an observer throws; so do such events one after the other.\<close>

lemma transport_open_returns:
  assumes "never_subscribes body"
  shows "\<exists>r. transport_open i body s = Some r"
proof -
  let ?s1 = "s\<lparr>sockets := (sockets s)(i := (sockets s i)\<lparr>readyState := OPEN\<rparr>)\<rparr>"
  have "\<exists>r. ws_onopen body ?s1 = Some r"
    using pass_returns[OF assms, of 0 "connectionHandlers ?s1" "[]"]
    by (auto simp: ws_onopen_def notifyConnectionHandlers_def)
  then obtain r where r: "ws_onopen body ?s1 = Some r" ..
  have "transport_open i body s
        = Some (if readyState (sockets s i) = CONNECTING
                then (if onopen (sockets s i) then r else (False, ?s1)) else (False, s))"
    by (simp add: transport_open_def Let_def r)
  then show ?thesis ..
qed

lemma transport_message_returns:
  assumes "never_subscribes body"
  shows "\<exists>s'. transport_message i parsed body s = Some s'"
  using onmessage_returns[OF assms, of parsed s] by (simp add: transport_message_def)

lemma step_returns:
  assumes "pass_ends e"
  shows "\<exists>s'. step rand e s = Some s'"
proof (cases e)
  case (TransportOpen i body)
  with assms transport_open_returns[of body i s] obtain r
    where "transport_open i body s = Some r" by auto
  then have "step rand e s = Some (snd r)" by (simp add: TransportOpen)
  then show ?thesis ..
next
  case (TransportClose i code body)
  with assms transport_close_returns[of body i code s] obtain r
    where "transport_close i code body s = Some r" by auto
  then have "step rand e s = Some (snd r)" by (simp add: TransportClose)
  then show ?thesis ..
next
  case (TransportMessage i parsed body)
  with assms transport_message_returns[of body i parsed s] show ?thesis by simp
qed simp_all

lemma run_returns:
  assumes "list_all pass_ends evs"
  shows "\<exists>s'. run rand evs s = Some s'"
  using assms
proof (induction evs arbitrary: s)
  case Nil
  show ?case by simp
next
  case (Cons e evs)
  from Cons.prems have e: "pass_ends e" and r: "list_all pass_ends evs" by simp_all
  from step_returns[OF e, of rand s] obtain s1 where s1: "step rand e s = Some s1" ..
  from Cons.IH[OF r, of s1] show ?case by (simp add: s1)
qed

section \<open>The pending table in reachable states\<close>

text \<open>
  The parts of \<^const>\<open>req_inv\<close>, one by one, and the rule to establish it.
\<close>

lemma req_invD:
  assumes "req_inv s"
  shows "distinct (map fst (pendingRequests s))"
    and "distinct (map (promise \<circ> snd) (pendingRequests s))"
    and "\<And>e. e \<in> set (pendingRequests s) \<Longrightarrow>
           timers s (timeout (snd e)) = Some (RequestTimeoutCb (fst e) (promise (snd e)), 30000)"
    and "\<And>e. e \<in> set (pendingRequests s) \<Longrightarrow> (promise (snd e), fst e) \<in> set (issued s)"
    and "\<And>e. e \<in> set (pendingRequests s) \<Longrightarrow> settle_count (promise (snd e)) s = 0"
    and "\<And>t k p d. timers s t = Some (RequestTimeoutCb k p, d) \<Longrightarrow>
           (k, \<lparr>promise = p, timeout = t\<rparr>) \<in> set (pendingRequests s)"
    and "\<And>r. r \<in> set (issued s) \<Longrightarrow> fst r < promiseCount s"
    and "\<And>r. r \<in> set (issued s) \<Longrightarrow> fst r \<notin> (promise \<circ> snd) ` set (pendingRequests s) \<Longrightarrow>
           settle_count (fst r) s = 1"
    and "\<And>r out. r \<in> set (issued s) \<Longrightarrow> fst r \<notin> (promise \<circ> snd) ` set (pendingRequests s) \<Longrightarrow>
           (fst r, out) \<in> set (settled s) \<Longrightarrow> outcome_ok (snd r) out"
    and "\<And>c. c \<in> set (settled s) \<Longrightarrow> fst c < promiseCount s"
    and "\<And>t. timers s t \<noteq> None \<Longrightarrow> t < timerCount s"
    and "distinct (map fst (issued s))"
    and "\<And>t. reconnectTimeoutRef s = Some t \<Longrightarrow> t < timerCount s"
    and "\<And>t k p d. reconnectTimeoutRef s = Some t \<Longrightarrow> timers s t \<noteq> Some (RequestTimeoutCb k p, d)"
  using assms unfolding req_inv_def by blast+

lemma req_invI:
  assumes "distinct (map fst (pendingRequests s))"
    and "distinct (map (promise \<circ> snd) (pendingRequests s))"
    and "\<And>e. e \<in> set (pendingRequests s) \<Longrightarrow>
           timers s (timeout (snd e)) = Some (RequestTimeoutCb (fst e) (promise (snd e)), 30000)"
    and "\<And>e. e \<in> set (pendingRequests s) \<Longrightarrow> (promise (snd e), fst e) \<in> set (issued s)"
    and "\<And>e. e \<in> set (pendingRequests s) \<Longrightarrow> settle_count (promise (snd e)) s = 0"
    and "\<And>t k p d. timers s t = Some (RequestTimeoutCb k p, d) \<Longrightarrow>
           (k, \<lparr>promise = p, timeout = t\<rparr>) \<in> set (pendingRequests s)"
    and "\<And>r. r \<in> set (issued s) \<Longrightarrow> fst r < promiseCount s"
    and "\<And>r. r \<in> set (issued s) \<Longrightarrow> fst r \<notin> (promise \<circ> snd) ` set (pendingRequests s) \<Longrightarrow>
           settle_count (fst r) s = 1"
    and "\<And>r out. r \<in> set (issued s) \<Longrightarrow> fst r \<notin> (promise \<circ> snd) ` set (pendingRequests s) \<Longrightarrow>
           (fst r, out) \<in> set (settled s) \<Longrightarrow> outcome_ok (snd r) out"
    and "\<And>c. c \<in> set (settled s) \<Longrightarrow> fst c < promiseCount s"
    and "\<And>t. timers s t \<noteq> None \<Longrightarrow> t < timerCount s"
    and "distinct (map fst (issued s))"
    and "\<And>t. reconnectTimeoutRef s = Some t \<Longrightarrow> t < timerCount s"
    and "\<And>t k p d. reconnectTimeoutRef s = Some t \<Longrightarrow> timers s t \<noteq> Some (RequestTimeoutCb k p, d)"
  shows "req_inv s"
  unfolding req_inv_def
  apply (intro conjI ballI allI impI)
  using assms by blast+

lemma req_inv_init: "req_inv init"
  by (simp add: req_inv_def init_def)

lemma settle_count_append:
  "settled s' = settled s @ xs \<Longrightarrow>
     settle_count p s' = settle_count p s + length (filter (\<lambda>c. fst c = p) xs)"
  by (simp add: settle_count_def)

lemma settle_count_same: "settled s' = settled s \<Longrightarrow> settle_count p s' = settle_count p s"
  by (simp add: settle_count_def)

lemma settle_count_pos: "(p, out) \<in> set (settled s) \<Longrightarrow> 0 < settle_count p s"
  by (force simp: settle_count_def filter_empty_conv)

lemma distinct_map_eq:
  "distinct (map f xs) \<Longrightarrow> x \<in> set xs \<Longrightarrow> y \<in> set xs \<Longrightarrow> f x = f y \<Longrightarrow> x = y"
  by (meson distinct_map inj_onD)

lemma distinct_map_count:
  "distinct (map f xs) \<Longrightarrow>
     length (filter (\<lambda>e. f e = v) xs) = (if v \<in> f ` set xs then 1 else 0)"
  by (induction xs) auto

lemma set_delete_alist: "set (AList.delete k P) = {e \<in> set P. fst e \<noteq> k}"
  by (auto simp: AList.delete_eq)

lemma distinct_promise_delete:
  "distinct (map f P) \<Longrightarrow> distinct (map f (AList.delete k P))"
  by (simp add: AList.delete_eq distinct_map_filter)

text \<open>Removing one entry of the table and settling its promise.\<close>

lemma req_inv_remove:
  assumes inv: "req_inv s" and e0: "(k, pd) \<in> set (pendingRequests s)" and ok: "outcome_ok k out"
    and P: "pendingRequests s' = AList.delete k (pendingRequests s)"
    and T: "timers s' = (timers s)(timeout pd := None)"
    and S: "settled s' = settled s @ [(promise pd, out)]"
    and I: "issued s' = issued s" and pc: "promiseCount s' = promiseCount s"
    and tc: "timerCount s' = timerCount s" and rf: "reconnectTimeoutRef s' = reconnectTimeoutRef s"
  shows "req_inv s'"
proof (rule req_invI)
  note d = req_invD[OF inv]
  have sub: "e \<in> set (pendingRequests s') \<Longrightarrow> e \<in> set (pendingRequests s) \<and> fst e \<noteq> k" for e
    by (simp add: P set_delete_alist)
  have only: "e \<in> set (pendingRequests s) \<Longrightarrow> fst e = k \<Longrightarrow> e = (k, pd)" for e
    using distinct_map_eq[OF d(1) _ e0, of e] by simp
  have cnt: "settle_count p s' = settle_count p s + (if p = promise pd then 1 else 0)" for p
    by (simp add: settle_count_append[OF S])
  have prom: "(promise \<circ> snd) ` set (pendingRequests s)
              = insert (promise pd) ((promise \<circ> snd) ` set (pendingRequests s'))"
  proof (intro equalityI subsetI)
    fix x assume "x \<in> (promise \<circ> snd) ` set (pendingRequests s)"
    then obtain e where e: "e \<in> set (pendingRequests s)" "x = promise (snd e)" by auto
    show "x \<in> insert (promise pd) ((promise \<circ> snd) ` set (pendingRequests s'))"
    proof (cases "fst e = k")
      case True
      from only[OF e(1) True] e(2) show ?thesis by simp
    next
      case False
      with e(1) have "e \<in> set (pendingRequests s')" by (simp add: P set_delete_alist)
      then show ?thesis using e(2) by auto
    qed
  next
    fix x assume "x \<in> insert (promise pd) ((promise \<circ> snd) ` set (pendingRequests s'))"
    then consider "x = promise pd" | e where "e \<in> set (pendingRequests s')" "x = promise (snd e)"
      by auto
    then show "x \<in> (promise \<circ> snd) ` set (pendingRequests s)"
    proof cases
      case 1
      then show ?thesis using e0 by force
    next
      case 2
      then show ?thesis using sub[of e] by force
    qed
  qed
  show "distinct (map fst (pendingRequests s'))"
    by (simp add: P AList.distinct_delete d(1))
  show "distinct (map (promise \<circ> snd) (pendingRequests s'))"
    by (simp add: P distinct_promise_delete d(2))
  show "timers s' (timeout (snd e)) = Some (RequestTimeoutCb (fst e) (promise (snd e)), 30000)"
    if "e \<in> set (pendingRequests s')" for e
  proof -
    from sub[OF that] have m: "e \<in> set (pendingRequests s)" and ne: "fst e \<noteq> k" by auto
    have "timeout (snd e) \<noteq> timeout pd"
      using d(3)[OF m] d(3)[OF e0] ne by auto
    then show ?thesis using d(3)[OF m] by (simp add: T)
  qed
  show "(promise (snd e), fst e) \<in> set (issued s')" if "e \<in> set (pendingRequests s')" for e
    using sub[OF that] d(4) by (simp add: I)
  show "settle_count (promise (snd e)) s' = 0" if "e \<in> set (pendingRequests s')" for e
  proof -
    from sub[OF that] have m: "e \<in> set (pendingRequests s)" and ne: "fst e \<noteq> k" by auto
    have "promise (snd e) \<noteq> promise pd"
      using distinct_map_eq[OF d(2) m e0] ne by auto
    then show ?thesis using d(5)[OF m] by (simp add: cnt)
  qed
  show "(k', \<lparr>promise = p, timeout = t\<rparr>) \<in> set (pendingRequests s')"
    if "timers s' t = Some (RequestTimeoutCb k' p, d)" for t k' p d
  proof -
    from that have t: "t \<noteq> timeout pd" and old: "timers s t = Some (RequestTimeoutCb k' p, d)"
      by (auto simp: T split: if_splits)
    from d(6)[OF old] have m: "(k', \<lparr>promise = p, timeout = t\<rparr>) \<in> set (pendingRequests s)" .
    have "k' \<noteq> k" using only[OF m] t by auto
    then show ?thesis using m by (simp add: P set_delete_alist)
  qed
  show "fst r < promiseCount s'" if "r \<in> set (issued s')" for r
    using that d(7) by (simp add: I pc)
  show "settle_count (fst r) s' = 1"
    if "r \<in> set (issued s')" "fst r \<notin> (promise \<circ> snd) ` set (pendingRequests s')" for r
  proof (cases "fst r = promise pd")
    case True
    then show ?thesis using d(5)[OF e0] by (simp add: cnt)
  next
    case False
    have "fst r \<notin> (promise \<circ> snd) ` set (pendingRequests s)"
      using that(2) False unfolding prom by blast
    from d(8)[OF _ this] that(1) False show ?thesis by (simp add: cnt I)
  qed
  show "outcome_ok (snd r) out'"
    if "r \<in> set (issued s')" "fst r \<notin> (promise \<circ> snd) ` set (pendingRequests s')"
      "(fst r, out') \<in> set (settled s')" for r out'
  proof (cases "fst r = promise pd")
    case True
    have "(fst r, out') \<notin> set (settled s)"
      using settle_count_pos[of "fst r" out' s] d(5)[OF e0] True by auto
    with that(3) have o: "out' = out" by (simp add: S)
    have "(promise pd, k) \<in> set (issued s)" using d(4)[OF e0] by simp
    moreover have "(promise pd, snd r) \<in> set (issued s)" using that(1) True by (simp add: I) (metis prod.collapse)
    ultimately have "snd r = k" using distinct_map_eq[OF d(12), of "(promise pd, k)" "(promise pd, snd r)"] by simp
    then show ?thesis using ok o by simp
  next
    case False
    have np: "fst r \<notin> (promise \<circ> snd) ` set (pendingRequests s)"
      using that(2) False unfolding prom by blast
    from that(3) False have "(fst r, out') \<in> set (settled s)" by (simp add: S)
    from d(9)[OF _ np this] that(1) show ?thesis by (simp add: I)
  qed
  show "fst c < promiseCount s'" if "c \<in> set (settled s')" for c
    using that d(10)[of c] d(7)[OF d(4)[OF e0]] by (auto simp: S pc)
  show "t < timerCount s'" if "timers s' t \<noteq> None" for t
    using that d(11)[of t] by (simp add: T tc split: if_splits)
  show "distinct (map fst (issued s'))" by (simp add: I d(12))
  show "t < timerCount s'" if "reconnectTimeoutRef s' = Some t" for t
    using that d(13) by (simp add: rf tc)
  show "timers s' t \<noteq> Some (RequestTimeoutCb k' p, d)" if "reconnectTimeoutRef s' = Some t" for t k' p d
    using that d(14)[of t] by (simp add: rf T)
qed

text \<open>Changes that leave the table, the promises and the request timers alone.\<close>

lemma req_inv_other_timers:
  assumes inv: "req_inv s"
    and P: "pendingRequests s' = pendingRequests s" and S: "settled s' = settled s"
    and I: "issued s' = issued s" and pc: "promiseCount s' = promiseCount s"
    and T: "\<And>t. timers s' t = timers s t
              \<or> ((\<forall>k p d. timers s t \<noteq> Some (RequestTimeoutCb k p, d))
                 \<and> (\<forall>k p d. timers s' t \<noteq> Some (RequestTimeoutCb k p, d)))"
    and B: "\<And>t. timers s' t \<noteq> None \<Longrightarrow> t < timerCount s'"
    and R: "\<And>t. reconnectTimeoutRef s' = Some t \<Longrightarrow>
              t < timerCount s' \<and> (\<forall>k p d. timers s' t \<noteq> Some (RequestTimeoutCb k p, d))"
  shows "req_inv s'"
proof (rule req_invI)
  note d = req_invD[OF inv]
  show "distinct (map fst (pendingRequests s'))" by (simp add: P d(1))
  show "distinct (map (promise \<circ> snd) (pendingRequests s'))" using d(2) by (simp add: P)
  show "timers s' (timeout (snd e)) = Some (RequestTimeoutCb (fst e) (promise (snd e)), 30000)"
    if "e \<in> set (pendingRequests s')" for e
    using d(3)[of e] that T[of "timeout (snd e)"] by (auto simp: P)
  show "(promise (snd e), fst e) \<in> set (issued s')" if "e \<in> set (pendingRequests s')" for e
    using that d(4) by (simp add: P I)
  show "settle_count (promise (snd e)) s' = 0" if "e \<in> set (pendingRequests s')" for e
    using that d(5) by (simp add: P settle_count_same[OF S])
  show "(k, \<lparr>promise = p, timeout = t\<rparr>) \<in> set (pendingRequests s')"
    if "timers s' t = Some (RequestTimeoutCb k p, d)" for t k p d
    using that T[of t] d(6)[of t k p d] by (auto simp: P)
  show "fst r < promiseCount s'" if "r \<in> set (issued s')" for r
    using that d(7) by (simp add: I pc)
  show "settle_count (fst r) s' = 1"
    if "r \<in> set (issued s')" "fst r \<notin> (promise \<circ> snd) ` set (pendingRequests s')" for r
    using that d(8)[of r] by (simp add: I P settle_count_same[OF S])
  show "outcome_ok (snd r) out"
    if "r \<in> set (issued s')" "fst r \<notin> (promise \<circ> snd) ` set (pendingRequests s')"
      "(fst r, out) \<in> set (settled s')" for r out
    using that d(9)[of r out] by (simp add: I P S)
  show "fst c < promiseCount s'" if "c \<in> set (settled s')" for c
    using that d(10)[of c] by (simp add: S pc)
  show "t < timerCount s'" if "timers s' t \<noteq> None" for t
    using that by (rule B)
  show "distinct (map fst (issued s'))" by (simp add: I d(12))
  show "t < timerCount s'" if "reconnectTimeoutRef s' = Some t" for t
    using R[OF that] by simp
  show "timers s' t \<noteq> Some (RequestTimeoutCb k p, d)" if "reconnectTimeoutRef s' = Some t" for t k p d
    using R[OF that] by simp
qed

text \<open>Settling a promise that was never put into the table.\<close>

lemma req_inv_settle_fresh:
  assumes inv: "req_inv s"
    and S: "settled s' = settled s @ [(promiseCount s, out)]"
    and pc: "promiseCount s' = Suc (promiseCount s)"
    and P: "pendingRequests s' = pendingRequests s" and T: "timers s' = timers s"
    and I: "issued s' = issued s"
    and tc: "timerCount s' = timerCount s" and rf: "reconnectTimeoutRef s' = reconnectTimeoutRef s"
  shows "req_inv s'"
proof (rule req_invI)
  note d = req_invD[OF inv]
  have cnt: "settle_count p s' = settle_count p s" if "p < promiseCount s" for p
    using that by (simp add: settle_count_append[OF S])
  have old: "p < promiseCount s \<Longrightarrow> (p, o') \<in> set (settled s') \<Longrightarrow> (p, o') \<in> set (settled s)" for p o'
    by (auto simp: S)
  show "distinct (map fst (pendingRequests s'))" by (simp add: P d(1))
  show "distinct (map (promise \<circ> snd) (pendingRequests s'))" using d(2) by (simp add: P)
  show "timers s' (timeout (snd e)) = Some (RequestTimeoutCb (fst e) (promise (snd e)), 30000)"
    if "e \<in> set (pendingRequests s')" for e
    using d(3)[of e] that by (simp add: P T)
  show "(promise (snd e), fst e) \<in> set (issued s')" if "e \<in> set (pendingRequests s')" for e
    using that d(4) by (simp add: P I)
  show "settle_count (promise (snd e)) s' = 0" if "e \<in> set (pendingRequests s')" for e
    using that d(5)[of e] d(7)[OF d(4)[of e]] by (simp add: P cnt)
  show "(k, \<lparr>promise = p, timeout = t\<rparr>) \<in> set (pendingRequests s')"
    if "timers s' t = Some (RequestTimeoutCb k p, d)" for t k p d
    using that d(6)[of t k p d] by (simp add: P T)
  show "fst r < promiseCount s'" if "r \<in> set (issued s')" for r
    using that d(7)[of r] by (simp add: I pc)
  show "settle_count (fst r) s' = 1"
    if "r \<in> set (issued s')" "fst r \<notin> (promise \<circ> snd) ` set (pendingRequests s')" for r
    using that d(8)[of r] d(7)[of r] by (simp add: I P cnt)
  show "outcome_ok (snd r) o'"
    if "r \<in> set (issued s')" "fst r \<notin> (promise \<circ> snd) ` set (pendingRequests s')"
      "(fst r, o') \<in> set (settled s')" for r o'
    using that d(9)[of r o'] d(7)[of r] old[of "fst r" o'] by (simp add: I P)
  show "fst c < promiseCount s'" if "c \<in> set (settled s')" for c
    using that d(10)[of c] by (auto simp: S pc)
  show "t < timerCount s'" if "timers s' t \<noteq> None" for t
    using that d(11)[of t] by (simp add: T tc)
  show "distinct (map fst (issued s'))" by (simp add: I d(12))
  show "t < timerCount s'" if "reconnectTimeoutRef s' = Some t" for t
    using that d(13) by (simp add: rf tc)
  show "timers s' t \<noteq> Some (RequestTimeoutCb k p, d)" if "reconnectTimeoutRef s' = Some t" for t k p d
    using that d(14)[of t] by (simp add: rf T)
qed

text \<open>Rejecting every entry of the table.\<close>

lemma req_inv_reject_all:
  assumes inv: "req_inv s"
    and ok: "\<And>k. outcome_ok k (Rejected (NewError msg))"
    and P: "pendingRequests s' = []"
    and T: "timers s' = timers s |` (- (timeout \<circ> snd) ` set (pendingRequests s))"
    and S: "settled s' = settled s
              @ map (\<lambda>e. (promise (snd e), Rejected (NewError msg))) (pendingRequests s)"
    and I: "issued s' = issued s" and pc: "promiseCount s' = promiseCount s"
    and tc: "timerCount s' = timerCount s" and rf: "reconnectTimeoutRef s' = reconnectTimeoutRef s"
  shows "req_inv s'"
proof (rule req_invI)
  note d = req_invD[OF inv]
  have flt: "filter (\<lambda>c. fst c = p) (map (\<lambda>e. (promise (snd e), Rejected (NewError msg))) xs)
             = map (\<lambda>e. (promise (snd e), Rejected (NewError msg)))
                 (filter (\<lambda>e. (promise \<circ> snd) e = p) xs)" for p xs
    by (induction xs) auto
  have cnt: "settle_count p s'
             = settle_count p s + (if p \<in> (promise \<circ> snd) ` set (pendingRequests s) then 1 else 0)" for p
    unfolding settle_count_append[OF S] flt length_map distinct_map_count[OF d(2)] ..
  show "distinct (map fst (pendingRequests s'))" by (simp add: P)
  show "distinct (map (promise \<circ> snd) (pendingRequests s'))" by (simp add: P)
  show "timers s' (timeout (snd e)) = Some (RequestTimeoutCb (fst e) (promise (snd e)), 30000)"
    if "e \<in> set (pendingRequests s')" for e
    using that by (simp add: P)
  show "(promise (snd e), fst e) \<in> set (issued s')" if "e \<in> set (pendingRequests s')" for e
    using that by (simp add: P)
  show "settle_count (promise (snd e)) s' = 0" if "e \<in> set (pendingRequests s')" for e
    using that by (simp add: P)
  show "(k, \<lparr>promise = p, timeout = t\<rparr>) \<in> set (pendingRequests s')"
    if "timers s' t = Some (RequestTimeoutCb k p, d)" for t k p d
  proof -
    from that have a: "t \<notin> (timeout \<circ> snd) ` set (pendingRequests s)"
      and b: "timers s t = Some (RequestTimeoutCb k p, d)"
      by (auto simp: T restrict_map_def split: if_splits)
    from d(6)[OF b] have "t \<in> (timeout \<circ> snd) ` set (pendingRequests s)" by force
    with a show ?thesis by simp
  qed
  show "fst r < promiseCount s'" if "r \<in> set (issued s')" for r
    using that d(7)[of r] by (simp add: I pc)
  show "settle_count (fst r) s' = 1"
    if "r \<in> set (issued s')" "fst r \<notin> (promise \<circ> snd) ` set (pendingRequests s')" for r
  proof (cases "fst r \<in> (promise \<circ> snd) ` set (pendingRequests s)")
    case True
    then obtain e where e: "e \<in> set (pendingRequests s)" "fst r = promise (snd e)" by auto
    from d(5)[OF e(1)] True show ?thesis by (simp add: cnt e(2))
  next
    case False
    from d(8)[OF _ False] that(1) False show ?thesis by (simp add: cnt I)
  qed
  show "outcome_ok (snd r) out"
    if "r \<in> set (issued s')" "fst r \<notin> (promise \<circ> snd) ` set (pendingRequests s')"
      "(fst r, out) \<in> set (settled s')" for r out
  proof (cases "(fst r, out) \<in> set (settled s)")
    case True
    have np: "fst r \<notin> (promise \<circ> snd) ` set (pendingRequests s)"
    proof
      assume "fst r \<in> (promise \<circ> snd) ` set (pendingRequests s)"
      then obtain e where e: "e \<in> set (pendingRequests s)" "fst r = promise (snd e)" by auto
      from d(5)[OF e(1)] settle_count_pos[OF True] e(2) show False by simp
    qed
    from d(9)[OF _ np True] that(1) show ?thesis by (simp add: I)
  next
    case False
    with that(3) have "out = Rejected (NewError msg)" by (auto simp: S)
    then show ?thesis using ok by simp
  qed
  show "fst c < promiseCount s'" if "c \<in> set (settled s')" for c
  proof (cases "c \<in> set (settled s)")
    case True
    then show ?thesis using d(10)[of c] by (simp add: pc)
  next
    case False
    with that obtain e where e: "e \<in> set (pendingRequests s)" "fst c = promise (snd e)"
      by (auto simp: S)
    from d(7)[OF d(4)[OF e(1)]] show ?thesis by (simp add: e(2) pc)
  qed
  show "t < timerCount s'" if "timers s' t \<noteq> None" for t
    using that d(11)[of t] by (auto simp: T tc restrict_map_def split: if_splits)
  show "distinct (map fst (issued s'))" by (simp add: I d(12))
  show "t < timerCount s'" if "reconnectTimeoutRef s' = Some t" for t
    using that d(13) by (simp add: rf tc)
  show "timers s' t \<noteq> Some (RequestTimeoutCb k p, d)" if "reconnectTimeoutRef s' = Some t" for t k p d
    using that d(14)[of t] by (auto simp: rf T restrict_map_def)
qed

text \<open>Putting a new request into the table under a key that is not there.\<close>

lemma update_absent: "k \<notin> fst ` set P \<Longrightarrow> AList.update k v P = P @ [(k, v)]"
  by (induction P) auto

lemma req_inv_register:
  assumes inv: "req_inv s" and fresh: "k \<notin> fst ` set (pendingRequests s)"
    and P: "pendingRequests s'
              = AList.update k \<lparr>promise = promiseCount s, timeout = timerCount s\<rparr> (pendingRequests s)"
    and T: "timers s' = (timers s)(timerCount s \<mapsto> (RequestTimeoutCb k (promiseCount s), 30000))"
    and S: "settled s' = settled s"
    and I: "issued s' = issued s @ [(promiseCount s, k)]"
    and pc: "promiseCount s' = Suc (promiseCount s)"
    and tc: "timerCount s' = Suc (timerCount s)"
    and rf: "reconnectTimeoutRef s' = reconnectTimeoutRef s"
  shows "req_inv s'"
proof (rule req_invI)
  note d = req_invD[OF inv]
  let ?new = "(k, \<lparr>promise = promiseCount s, timeout = timerCount s\<rparr>)"
  have P': "pendingRequests s' = pendingRequests s @ [?new]"
    by (simp add: P update_absent[OF fresh])
  have pl: "e \<in> set (pendingRequests s) \<Longrightarrow> promise (snd e) < promiseCount s" for e
    using d(7)[OF d(4)[of e]] by simp
  have tl: "e \<in> set (pendingRequests s) \<Longrightarrow> timeout (snd e) < timerCount s" for e
    using d(11)[of "timeout (snd e)"] d(3)[of e] by simp
  have nocount: "settle_count (promiseCount s) s = 0"
    using d(10) by (fastforce simp: settle_count_def filter_empty_conv)
  show "distinct (map fst (pendingRequests s'))"
    using d(1) fresh by (simp add: P')
  show "distinct (map (promise \<circ> snd) (pendingRequests s'))"
  proof -
    have "promiseCount s \<notin> (promise \<circ> snd) ` set (pendingRequests s)"
    proof
      assume "promiseCount s \<in> (promise \<circ> snd) ` set (pendingRequests s)"
      then obtain e where "e \<in> set (pendingRequests s)" "promiseCount s = promise (snd e)" by auto
      with pl[of e] show False by simp
    qed
    then show ?thesis using d(2) by (simp add: P')
  qed
  show "timers s' (timeout (snd e)) = Some (RequestTimeoutCb (fst e) (promise (snd e)), 30000)"
    if "e \<in> set (pendingRequests s')" for e
    using that d(3)[of e] tl[of e] by (auto simp: P' T)
  show "(promise (snd e), fst e) \<in> set (issued s')" if "e \<in> set (pendingRequests s')" for e
    using that d(4)[of e] by (auto simp: P' I)
  show "settle_count (promise (snd e)) s' = 0" if "e \<in> set (pendingRequests s')" for e
    using that d(5)[of e] nocount by (auto simp: P' settle_count_same[OF S])
  show "(k', \<lparr>promise = p, timeout = t\<rparr>) \<in> set (pendingRequests s')"
    if "timers s' t = Some (RequestTimeoutCb k' p, d)" for t k' p d
    using that d(6)[of t k' p d] by (auto simp: P' T split: if_splits)
  show "fst r < promiseCount s'" if "r \<in> set (issued s')" for r
    using that d(7)[of r] by (auto simp: I pc)
  have notnew: "fst r \<notin> (promise \<circ> snd) ` set (pendingRequests s') \<Longrightarrow>
      r \<in> set (issued s') \<Longrightarrow>
      r \<in> set (issued s) \<and> fst r \<notin> (promise \<circ> snd) ` set (pendingRequests s)" for r
    by (auto simp: P' I)
  show "settle_count (fst r) s' = 1"
    if "r \<in> set (issued s')" "fst r \<notin> (promise \<circ> snd) ` set (pendingRequests s')" for r
    using notnew[OF that(2,1)] d(8)[of r] by (simp add: settle_count_same[OF S])
  show "outcome_ok (snd r) out"
    if "r \<in> set (issued s')" "fst r \<notin> (promise \<circ> snd) ` set (pendingRequests s')"
      "(fst r, out) \<in> set (settled s')" for r out
    using notnew[OF that(2,1)] d(9)[of r out] that(3) by (simp add: S)
  show "fst c < promiseCount s'" if "c \<in> set (settled s')" for c
    using that d(10)[of c] by (simp add: S pc)
  show "t < timerCount s'" if "timers s' t \<noteq> None" for t
    using that d(11)[of t] by (auto simp: T tc split: if_splits)
  show "distinct (map fst (issued s'))"
  proof -
    have "promiseCount s \<notin> fst ` set (issued s)"
    proof
      assume "promiseCount s \<in> fst ` set (issued s)"
      then obtain r where "r \<in> set (issued s)" "promiseCount s = fst r" by auto
      with d(7)[of r] show False by simp
    qed
    then show ?thesis using d(12) by (simp add: I)
  qed
  show "t < timerCount s'" if "reconnectTimeoutRef s' = Some t" for t
    using that d(13)[of t] by (simp add: rf tc)
  show "timers s' t \<noteq> Some (RequestTimeoutCb k' p, d)" if "reconnectTimeoutRef s' = Some t" for t k' p d
    using that d(14)[of t] d(13)[of t] by (auto simp: rf T)
qed

text \<open>Every function of the provider keeps \<^const>\<open>req_inv\<close>; \<^verbatim>\<open>sendRequest\<close> keeps it when
  the identifier it generates is not pending.\<close>

lemma req_inv_frame:
  assumes "req_inv s"
    and "pendingRequests s' = pendingRequests s" "settled s' = settled s"
    and "issued s' = issued s" "promiseCount s' = promiseCount s"
    and "timers s' = timers s" "timerCount s' = timerCount s"
    and "reconnectTimeoutRef s' = reconnectTimeoutRef s"
  shows "req_inv s'"
proof (rule req_inv_other_timers[OF assms(1-5)])
  note d = req_invD[OF assms(1)]
  show "timers s' t = timers s t
        \<or> ((\<forall>k p d. timers s t \<noteq> Some (RequestTimeoutCb k p, d))
           \<and> (\<forall>k p d. timers s' t \<noteq> Some (RequestTimeoutCb k p, d)))" for t
    by (simp add: assms(6))
  show "t < timerCount s'" if "timers s' t \<noteq> None" for t
    using that d(11)[of t] by (simp add: assms(6,7))
  show "t < timerCount s' \<and> (\<forall>k p d. timers s' t \<noteq> Some (RequestTimeoutCb k p, d))"
    if "reconnectTimeoutRef s' = Some t" for t
    using that d(13)[of t] d(14)[of t] by (simp add: assms(6,7,8))
qed

lemma req_inv_clear_reconnect:
  assumes "req_inv s"
  shows "req_inv (clear_reconnect s)"
proof (cases "reconnectTimeoutRef s")
  case None
  then show ?thesis using assms by (simp add: clear_reconnect_def)
next
  case (Some t0)
  note d = req_invD[OF assms]
  have eq: "clear_reconnect s = s\<lparr>timers := (timers s)(t0 := None), reconnectTimeoutRef := None\<rparr>"
    by (simp add: clear_reconnect_def Some clearTimeout_def)
  show ?thesis unfolding eq
  proof (rule req_inv_other_timers[OF assms])
    show "timers (s\<lparr>timers := (timers s)(t0 := None), reconnectTimeoutRef := None\<rparr>) t = timers s t
        \<or> ((\<forall>k p d. timers s t \<noteq> Some (RequestTimeoutCb k p, d))
           \<and> (\<forall>k p d. timers (s\<lparr>timers := (timers s)(t0 := None), reconnectTimeoutRef := None\<rparr>) t
                  \<noteq> Some (RequestTimeoutCb k p, d)))" for t
      using d(14)[OF Some] by (cases "t = t0") simp_all
    show "t < timerCount (s\<lparr>timers := (timers s)(t0 := None), reconnectTimeoutRef := None\<rparr>)"
      if "timers (s\<lparr>timers := (timers s)(t0 := None), reconnectTimeoutRef := None\<rparr>) t \<noteq> None" for t
      using that d(11)[of t] by (simp split: if_splits)
  qed simp_all
qed

lemma connect_as_clear:
  "pendingRequests (connect c ip port s) = pendingRequests (clear_reconnect s)"
  "settled (connect c ip port s) = settled (clear_reconnect s)"
  "issued (connect c ip port s) = issued (clear_reconnect s)"
  "promiseCount (connect c ip port s) = promiseCount (clear_reconnect s)"
  "timerCount (connect c ip port s) = timerCount (clear_reconnect s)"
  "\<not> ws_open s \<Longrightarrow> timers (connect c ip port s) = timers (clear_reconnect s)"
  "\<not> ws_open s \<Longrightarrow> reconnectTimeoutRef (connect c ip port s) = reconnectTimeoutRef (clear_reconnect s)"
  by (cases "reconnectTimeoutRef s"; cases "wsRef s";
      simp add: connect_def connect_closure_def clear_reconnect_def clearTimeout_def Let_def)+

lemma req_inv_connect:
  assumes "req_inv s"
  shows "req_inv (connect c ip port s)"
proof (cases "ws_open s")
  case True
  then show ?thesis using assms by (simp add: connect_open)
next
  case False
  show ?thesis
    by (rule req_inv_frame[OF req_inv_clear_reconnect[OF assms]])
       (simp_all add: connect_as_clear False)
qed

lemma reject_all_msgs:
  "outcome_ok k (Rejected (NewError ''Connection closed''))"
  "outcome_ok k (Rejected (NewError ''Disconnected''))"
  "outcome_ok k (Rejected (NewError ''Request timeout''))"
  by simp_all

lemma req_inv_reject_all_op:
  assumes "req_inv s" "\<And>k. outcome_ok k (Rejected (NewError msg))"
  shows "req_inv (reject_all msg s)"
  by (rule req_inv_reject_all[OF assms]) (simp_all add: reject_all_eq)

lemma disconnect_as_reject:
  "disconnect s
     = (reject_all ''Disconnected'' (clear_reconnect s))
         \<lparr>reconnectAttempts := maxReconnectAttempts, isConnected := False, isConnecting := False,
          wsRef := None,
          sockets := (case wsRef s of None \<Rightarrow> sockets s
                      | Some i \<Rightarrow> (sockets s)(i := ws_close ((sockets s i)\<lparr>onclose := False\<rparr>)))\<rparr>"
  by (cases "reconnectTimeoutRef s"; cases "wsRef s";
      simp add: disconnect_def clear_reconnect_def clearTimeout_def Let_def reject_all_eq)

lemma req_inv_disconnect:
  assumes "req_inv s"
  shows "req_inv (disconnect s)"
  unfolding disconnect_as_reject
  by (rule req_inv_frame[OF req_inv_reject_all_op[OF req_inv_clear_reconnect[OF assms]
        reject_all_msgs(2)]]) simp_all

lemma reject_and_reconnect_as_reject:
  "reject_and_reconnect s =
     (let m = reject_all ''Connection closed'' s
      in if reconnectAttempts s < maxReconnectAttempts
         then m\<lparr>timers := (timers m)(timerCount s \<mapsto> (ReconnectCb, reconnect_delay (reconnectAttempts s))),
                timerCount := Suc (timerCount s),
                reconnectTimeoutRef := Some (timerCount s)\<rparr>
         else m)"
  by (simp add: reject_and_reconnect_def Let_def reject_all_eq setTimeout_def)

lemma req_inv_reject_and_reconnect:
  assumes "req_inv s"
  shows "req_inv (reject_and_reconnect s)"
proof -
  define m where "m = reject_all ''Connection closed'' s"
  have im: "req_inv m" unfolding m_def
    by (rule req_inv_reject_all_op[OF assms reject_all_msgs(1)])
  note d = req_invD[OF im]
  have tcm: "timerCount m = timerCount s" by (simp add: m_def reject_all_eq)
  show ?thesis
  proof (cases "reconnectAttempts s < maxReconnectAttempts")
    case False
    then show ?thesis unfolding reject_and_reconnect_as_reject Let_def m_def[symmetric]
      using im by simp
  next
    case True
    let ?s' = "m\<lparr>timers := (timers m)(timerCount s \<mapsto> (ReconnectCb, reconnect_delay (reconnectAttempts s))),
                timerCount := Suc (timerCount s),
                reconnectTimeoutRef := Some (timerCount s)\<rparr>"
    have "req_inv ?s'"
    proof (rule req_inv_other_timers[OF im])
      show "timers ?s' t = timers m t
        \<or> ((\<forall>k p d. timers m t \<noteq> Some (RequestTimeoutCb k p, d))
           \<and> (\<forall>k p d. timers ?s' t \<noteq> Some (RequestTimeoutCb k p, d)))" for t
        using d(11)[of t] by (cases "t = timerCount s") (auto simp: tcm)
      show "t < timerCount ?s'" if "timers ?s' t \<noteq> None" for t
        using that d(11)[of t] by (auto simp: tcm split: if_splits)
      show "t < timerCount ?s' \<and> (\<forall>k p d. timers ?s' t \<noteq> Some (RequestTimeoutCb k p, d))"
        if "reconnectTimeoutRef ?s' = Some t" for t
        using that by auto
    qed simp_all
    then show ?thesis using True
      unfolding reject_and_reconnect_as_reject Let_def m_def[symmetric] by simp
  qed
qed

lemma matching_requestD:
  assumes "matching_request rid s = Some (k, pd)"
  shows "rid = Some (JStr k)" "(k, pd) \<in> set (pendingRequests s)"
proof -
  from assms obtain k' where k': "key_of rid = Some k'"
    by (auto simp: matching_request_def split: if_splits option.splits)
  then have r: "rid = Some (JStr k')" by (cases rid rule: key_of.cases) auto
  from assms k' have "k' = k" "map_of (pendingRequests s) k = Some pd"
    by (auto simp: matching_request_def split: if_splits option.splits)
  then show "rid = Some (JStr k)" "(k, pd) \<in> set (pendingRequests s)"
    using r by (auto dest: map_of_SomeD)
qed

lemma req_inv_onmessage:
  assumes "req_inv s" "ws_onmessage body parsed s = Some s'"
  shows "req_inv s'"
  using assms(2)
proof (cases rule: ws_onmessage_cases)
  case dropped
  with assms(1) show ?thesis by simp
next
  case (unmatched data rid S called thrown)
  show ?thesis
    by (rule req_inv_frame[OF assms(1)]) (simp_all add: unmatched(5))
next
  case (matched data rid k pd S called thrown)
  note m = matching_requestD[OF matched(3)]
  have ok: "outcome_ok k (Resolved data)" using matched(2) m(1) by simp
  show ?thesis
    by (rule req_inv_remove[OF assms(1) m(2) ok]) (simp_all add: matched(5))
qed

lemma req_inv_sendRequest:
  assumes inv: "req_inv s"
    and fresh: "ws_open s \<longrightarrow> \<not> Map_has (generateRequestId rand (randomCalls s)) (pendingRequests s)"
  shows "req_inv (sendRequest rand action params send_error s)"
proof (cases "ws_open s")
  case False
  show ?thesis
    by (rule req_inv_settle_fresh[OF inv, where out = "Rejected (NewError ''WebSocket not connected'')"])
       (simp_all add: sendRequest_not_open[OF False])
next
  case True
  then obtain i where i: "wsRef s = Some i" "readyState (sockets s i) = OPEN"
    by (auto simp: ws_open_def split: option.splits)
  define k where "k = generateRequestId rand (randomCalls s)"
  from fresh True have fk: "k \<notin> fst ` set (pendingRequests s)" by (simp add: k_def Map_has_def)
  define m where "m = s\<lparr>promiseCount := Suc (promiseCount s),
      timers := (timers s)(timerCount s \<mapsto> (RequestTimeoutCb k (promiseCount s), 30000)),
      timerCount := Suc (timerCount s),
      pendingRequests := AList.update k \<lparr>promise = promiseCount s, timeout = timerCount s\<rparr>
                           (pendingRequests s),
      issued := issued s @ [(promiseCount s, k)]\<rparr>"
  have im: "req_inv m"
    by (rule req_inv_register[OF inv fk]) (simp_all add: m_def)
  show ?thesis
  proof (cases send_error)
    case None
    show ?thesis
      by (rule req_inv_frame[OF im])
         (simp_all add: m_def sendRequest_def i None Let_def setTimeout_def k_def)
  next
    case (Some e)
    have mem: "(k, \<lparr>promise = promiseCount s, timeout = timerCount s\<rparr>) \<in> set (pendingRequests m)"
      by (simp add: m_def update_absent[OF fk])
    have ok: "outcome_ok k (Rejected (Caught e))" by simp
    show ?thesis
      by (rule req_inv_remove[OF im mem ok])
         (simp_all add: m_def sendRequest_def i Some Let_def setTimeout_def k_def
            settle_def clearTimeout_def)
  qed
qed

lemma req_inv_timer:
  assumes inv: "req_inv s"
  shows "req_inv (fire_timer c t s)"
proof (cases "timers s t")
  case None
  then show ?thesis using inv by (simp add: fire_timer_def)
next
  case (Some a)
  obtain cb d where a: "a = (cb, d)" by (cases a)
  note dd = req_invD[OF inv]
  show ?thesis
  proof (cases cb)
    case (RequestTimeoutCb k p)
    from dd(6)[OF Some[unfolded a RequestTimeoutCb]]
    have mem: "(k, \<lparr>promise = p, timeout = t\<rparr>) \<in> set (pendingRequests s)" .
    then have has: "Map_has k (pendingRequests s)" by (force simp: Map_has_def)
    show ?thesis
      by (rule req_inv_remove[OF inv mem reject_all_msgs(3)])
         (simp_all add: fire_timer_def Some a RequestTimeoutCb run_timer_cb_def has settle_def)
  next
    case ReconnectCb
    let ?m = "s\<lparr>timers := (timers s)(t := None), reconnectAttempts := Suc (reconnectAttempts s)\<rparr>"
    have im: "req_inv ?m"
    proof (rule req_inv_other_timers[OF inv])
      show "timers ?m t' = timers s t'
        \<or> ((\<forall>k p d. timers s t' \<noteq> Some (RequestTimeoutCb k p, d))
           \<and> (\<forall>k p d. timers ?m t' \<noteq> Some (RequestTimeoutCb k p, d)))" for t'
        using Some a ReconnectCb by (cases "t' = t") simp_all
      show "t' < timerCount ?m" if "timers ?m t' \<noteq> None" for t'
        using that dd(11)[of t'] by (simp split: if_splits)
      show "t' < timerCount ?m \<and> (\<forall>k p d. timers ?m t' \<noteq> Some (RequestTimeoutCb k p, d))"
        if "reconnectTimeoutRef ?m = Some t'" for t'
        using that dd(13)[of t'] dd(14)[of t'] by simp
    qed simp_all
    have "fire_timer c t s = connect c (fst (serverConfig s)) (snd (serverConfig s)) ?m"
      by (simp add: fire_timer_def Some a ReconnectCb run_timer_cb_def)
    then show ?thesis using req_inv_connect[OF im] by simp
  qed
qed

lemma req_inv_open:
  assumes inv: "req_inv s" and t: "transport_open i body s = Some (thrown, s')"
  shows "req_inv s'"
  using t
proof (cases rule: transport_open_cases)
  case ignored
  with inv show ?thesis by simp
next
  case detached
  show ?thesis by (rule req_inv_frame[OF inv]) (simp_all add: detached(3))
next
  case (opened S called)
  show ?thesis by (rule req_inv_frame[OF inv]) (simp_all add: opened(4))
qed

lemma req_inv_message:
  assumes inv: "req_inv s" and t: "transport_message i parsed body s = Some s'"
  shows "req_inv s'"
  using t
  by (cases rule: transport_message_cases) (use inv req_inv_onmessage in auto)

lemma req_inv_error: "req_inv s \<Longrightarrow> req_inv (transport_error i s)"
  by (simp add: transport_error_def ws_onerror_def)

lemma req_inv_close:
  assumes inv: "req_inv s" and t: "transport_close i code body s = Some (th, s')"
  shows "req_inv s'"
  using t
proof (cases rule: transport_close_cases)
  case ignored
  with inv show ?thesis by simp
next
  case detached
  show ?thesis by (rule req_inv_frame[OF inv]) (simp_all add: detached(4))
next
  case (thrown S called)
  show ?thesis by (rule req_inv_frame[OF inv]) (simp_all add: thrown(5))
next
  case (returned S called)
  have "req_inv (s\<lparr>sockets := (sockets s)(i := (sockets s i)\<lparr>readyState := CLOSED\<rparr>),
                  isConnected := False, isConnecting := False, wsRef := None,
                  connectionHandlers := S,
                  connectionCalls := connectionCalls s @ map (\<lambda>h. (h, False)) called\<rparr>)"
    by (rule req_inv_frame[OF inv]) simp_all
  from req_inv_reject_and_reconnect[OF this] show ?thesis by (simp add: returned(5))
qed

lemma req_inv_handlers:
  assumes inv: "req_inv s"
  shows "req_inv (addMessageHandler h s)" "req_inv (removeMessageHandler h s)"
    "req_inv (addConnectionHandler h s)" "req_inv (removeConnectionHandler h s)"
  by (rule req_inv_frame[OF inv];
      simp add: addMessageHandler_def removeMessageHandler_def addConnectionHandler_def
        removeConnectionHandler_def)+

lemma req_inv_step:
  assumes "req_inv s" "fresh_id rand e s" "step rand e s = Some s'"
  shows "req_inv s'"
  using assms
  by (cases e)
     (auto simp: req_inv_connect req_inv_disconnect req_inv_sendRequest req_inv_handlers
        req_inv_error req_inv_timer intro: req_inv_open req_inv_message req_inv_close)

lemma req_inv_run:
  assumes "req_inv s" "collision_free rand evs s" "run rand evs s = Some s'"
  shows "req_inv s'"
  using assms
proof (induction evs arbitrary: s)
  case Nil
  then show ?case by simp
next
  case (Cons e evs)
  from Cons.prems(3) obtain s1 where s1: "step rand e s = Some s1" "run rand evs s1 = Some s'"
    by (auto split: option.splits)
  from Cons.prems(2) s1(1) have f: "fresh_id rand e s" "collision_free rand evs s1" by simp_all
  from Cons.IH[OF req_inv_step[OF Cons.prems(1) f(1) s1(1)] f(2) s1(2)] show ?case .
qed

section \<open>Every request is settled once\<close>

lemma timeout_fires:
  assumes "timers s t = Some (RequestTimeoutCb k p, d)" "Map_has k (pendingRequests s)"
  shows "settled (fire_timer c t s) = settled s @ [(p, Rejected (NewError ''Request timeout''))]"
  using assms by (simp add: fire_timer_def run_timer_cb_def settle_def)

lemma answered_run: "run zeros answered_trace init = Some answered_state"
  by (simp add: answered_state_def answered_trace_def pong_def connect_def connect_closure_def
      ws_open_def init_def clear_reconnect_def Let_def transport_open_def ws_onopen_def
      notifyConnectionHandlers_quiet[OF quiet_all] sendRequest_def setTimeout_def zero_id
      transport_message_def ws_onmessage_def matching_request_def settle_def clearTimeout_def
      notifyMessageHandlers_quiet[OF quiet_all])

lemma answered_state_simps:
  "issued answered_state = [(0, ''00000000-0000-4000-8000-000000000000'')]"
  "settled answered_state = [(0, Resolved pong)]"
  "pendingRequests answered_state = []"
  by (simp_all add: answered_state_def answered_trace_def pong_def connect_def
      connect_closure_def ws_open_def init_def clear_reconnect_def Let_def transport_open_def
      ws_onopen_def notifyConnectionHandlers_quiet[OF quiet_all] sendRequest_def setTimeout_def
      zero_id transport_message_def ws_onmessage_def matching_request_def settle_def
      clearTimeout_def notifyMessageHandlers_quiet[OF quiet_all])

lemma answered_collision_free: "collision_free zeros answered_trace init"
  by (simp add: answered_trace_def pong_def connect_def connect_closure_def
      ws_open_def init_def clear_reconnect_def Let_def transport_open_def ws_onopen_def
      notifyConnectionHandlers_quiet[OF quiet_all] sendRequest_def setTimeout_def zero_id
      Map_has_def transport_message_def ws_onmessage_def matching_request_def settle_def
      clearTimeout_def notifyMessageHandlers_quiet[OF quiet_all])

text \<open>
  C1 (as amended). Take any events from the initial state that return, in which no
  \<^verbatim>\<open>sendRequest\<close> generates an identifier that is pending at that moment, whatever the
  observers do, and any request that \<^verbatim>\<open>sendRequest\<close> has put into the pending table, with
  promise \<open>p\<close> and identifier \<open>k\<close>. Then either \<^verbatim>\<open>resolve\<close>/\<^verbatim>\<open>reject\<close> of \<open>p\<close> has been called
  exactly once and the request is no longer in the table, and the call was \<^verbatim>\<open>resolve\<close>
  with a frame whose \<^verbatim>\<open>request_id\<close> is \<open>k\<close>, or \<^verbatim>\<open>reject\<close> with \<^verbatim>\<open>Error('Request timeout')\<close>,
  \<^verbatim>\<open>Error('Connection closed')\<close> or \<^verbatim>\<open>Error('Disconnected')\<close>, or \<^verbatim>\<open>reject\<close> with what \<^verbatim>\<open>send\<close>
  threw; or no call has been made yet, the request is in the table under \<open>k\<close>, and its
  timer is armed, so that when the timer fires \<^verbatim>\<open>reject\<close> of \<open>p\<close> is called with
  \<^verbatim>\<open>Error('Request timeout')\<close>. No request is settled twice and none is dropped.
\<close>

theorem exactly_once_settlement:
  assumes "run rand evs init = Some s"
    and "collision_free rand evs init"
    and "(p, k) \<in> set (issued s)"
  shows "(settle_count p s = 1
          \<and> p \<notin> (promise \<circ> snd) ` set (pendingRequests s)
          \<and> (\<forall>out. (p, out) \<in> set (settled s) \<longrightarrow> outcome_ok k out))
       \<or> (settle_count p s = 0
          \<and> (\<exists>t. map_of (pendingRequests s) k = Some \<lparr>promise = p, timeout = t\<rparr>
                \<and> timers s t = Some (RequestTimeoutCb k p, 30000)
                \<and> settled (fire_timer c t s)
                    = settled s @ [(p, Rejected (NewError ''Request timeout''))]))"
proof -
  have inv: "req_inv s" by (rule req_inv_run[OF req_inv_init assms(2,1)])
  note d = req_invD[OF inv]
  note iss = assms(3)
  show ?thesis
  proof (cases "p \<in> (promise \<circ> snd) ` set (pendingRequests s)")
    case False
    from d(8)[OF iss] d(9)[OF iss] False show ?thesis by auto
  next
    case True
    then obtain e where e: "e \<in> set (pendingRequests s)" "p = promise (snd e)" by auto
    have "(p, fst e) \<in> set (issued s)" using d(4)[OF e(1)] e(2) by simp
    with iss have ke: "fst e = k"
      using distinct_map_eq[OF d(12), of "(p, fst e)" "(p, k)"] by simp
    define t where "t = timeout (snd e)"
    have pd: "snd e = \<lparr>promise = p, timeout = t\<rparr>" by (simp add: e(2) t_def)
    have mem: "(k, snd e) \<in> set (pendingRequests s)" using e(1) ke by (metis prod.collapse)
    have m: "map_of (pendingRequests s) k = Some \<lparr>promise = p, timeout = t\<rparr>"
      using map_of_is_SomeI[OF d(1) mem] pd by simp
    have has: "Map_has k (pendingRequests s)"
      using mem by (force simp: Map_has_def)
    have tm: "timers s t = Some (RequestTimeoutCb k p, 30000)"
      using d(3)[OF e(1)] ke e(2) by (simp add: t_def)
    have c0: "settle_count p s = 0" using d(5)[OF e(1)] e(2) by simp
    show ?thesis using m tm c0 timeout_fires[OF tm has, of c] by blast
  qed
qed

theorem exactly_once_settlement_witness:
  "run zeros answered_trace init = Some answered_state
   \<and> collision_free zeros answered_trace init
   \<and> (0, ''00000000-0000-4000-8000-000000000000'') \<in> set (issued answered_state)
   \<and> settle_count 0 answered_state = 1
   \<and> settled answered_state = [(0, Resolved pong)]
   \<and> outcome_ok ''00000000-0000-4000-8000-000000000000'' (Resolved pong)"
proof -
  have i: "(0, ''00000000-0000-4000-8000-000000000000'') \<in> set (issued answered_state)"
    by (simp add: answered_state_simps)
  show ?thesis
    using exactly_once_settlement[OF answered_run answered_collision_free i, of True]
      answered_collision_free answered_run
    by (simp add: answered_state_simps settle_count_def pong_def)
qed

text \<open>
  The claim as stated fails twice. A request that is outstanding when \<^verbatim>\<open>disconnect\<close> is
  called is rejected with \<^verbatim>\<open>Error('Disconnected')\<close>, which is neither the timeout nor the
  error of a closed connection. And when two outstanding requests draw the same
  identifier, the second replaces the first in the table: the answer resolves the second
  promise, the first timer then finds no entry and does nothing, and the first promise
  is never settled although no entry and no timer is left.
\<close>

theorem settlement_counterexample:
  "map_option issued (run zeros disconnected_trace init)
     = Some [(0, ''00000000-0000-4000-8000-000000000000'')]
   \<and> map_option settled (run zeros disconnected_trace init)
       = Some [(0, Rejected (NewError ''Disconnected''))]
   \<and> map_option issued (run zeros collision_trace init)
       = Some [(0, ''00000000-0000-4000-8000-000000000000''),
               (1, ''00000000-0000-4000-8000-000000000000'')]
   \<and> map_option settled (run zeros collision_trace init) = Some [(1, Resolved pong)]
   \<and> map_option (settle_count 0) (run zeros collision_trace init) = Some 0
   \<and> map_option pendingRequests (run zeros collision_trace init) = Some []
   \<and> map_option (dom \<circ> timers) (run zeros collision_trace init) = Some {}"
proof -
  have a: "map_option issued (run zeros disconnected_trace init)
     = Some [(0, ''00000000-0000-4000-8000-000000000000'')]"
    "map_option settled (run zeros disconnected_trace init)
       = Some [(0, Rejected (NewError ''Disconnected''))]"
    by (simp_all add: disconnected_trace_def connect_def connect_closure_def
      ws_open_def init_def clear_reconnect_def Let_def transport_open_def ws_onopen_def
      notifyConnectionHandlers_quiet[OF quiet_all] sendRequest_def setTimeout_def zero_id
      disconnect_def reject_all_eq)
  have b: "map_option issued (run zeros collision_trace init)
       = Some [(0, ''00000000-0000-4000-8000-000000000000''),
               (1, ''00000000-0000-4000-8000-000000000000'')]"
    "map_option settled (run zeros collision_trace init) = Some [(1, Resolved pong)]"
    "map_option pendingRequests (run zeros collision_trace init) = Some []"
    "map_option timers (run zeros collision_trace init) = Some Map.empty"
    by (simp_all add: collision_trace_def pong_def connect_def connect_closure_def
      ws_open_def init_def clear_reconnect_def Let_def transport_open_def ws_onopen_def
      notifyConnectionHandlers_quiet[OF quiet_all] sendRequest_def setTimeout_def zero_id
      id_draws_31 transport_message_def ws_onmessage_def matching_request_def settle_def
      clearTimeout_def notifyMessageHandlers_quiet[OF quiet_all] fire_timer_def
      run_timer_cb_def Map_has_def)
  from b(2) have c: "map_option (settle_count 0) (run zeros collision_trace init) = Some 0"
    by (auto simp: settle_count_def)
  from b(4) have d: "map_option (dom \<circ> timers) (run zeros collision_trace init) = Some {}"
    by auto
  show ?thesis using a b(1,2,3) c d by simp
qed

end
